theory Spec2Isabelle
  imports Complex_Main "HOL-Library.Word"
begin

section \<open>Python values used by watermark\_remover.py\<close>

text \<open>
  Every exception the modelled functions can raise is a value of \<open>error\<close>; a function that
  can raise returns \<open>error + 'a\<close> with \<open>Inl\<close> for the exception. \<open>ValueError\<close> carries the
  message of the \<^verbatim>\<open>raise\<close> statement.
\<close>

datatype error =
    ValueError string
  | KeyError
  | ZeroDivisionError
  | TypeError
  | Cv2Error
  | ExternalFailure

subsection \<open>Dictionaries in insertion order\<close>

text \<open>
  A Python \<^verbatim>\<open>dict\<close> iterates in insertion order, and assigning to a key that is present
  keeps the key's position. It is modelled as an association list with the three
  operations the code uses: \<^verbatim>\<open>d[k] = v\<close>, \<^verbatim>\<open>del d[k]\<close> (KeyError when absent) and lookup.
\<close>

type_synonym ('k, 'v) pydict = "('k \<times> 'v) list"

fun dict_set :: "('k, 'v) pydict \<Rightarrow> 'k \<Rightarrow> 'v \<Rightarrow> ('k, 'v) pydict" where
  "dict_set [] k v = [(k, v)]"
| "dict_set ((k', v') # d) k v =
     (if k' = k then (k', v) # d else (k', v') # dict_set d k v)"

fun dict_remove :: "('k, 'v) pydict \<Rightarrow> 'k \<Rightarrow> ('k, 'v) pydict" where
  "dict_remove [] k = []"
| "dict_remove ((k', v') # d) k =
     (if k' = k then d else (k', v') # dict_remove d k)"

definition dict_del :: "('k, 'v) pydict \<Rightarrow> 'k \<Rightarrow> error + ('k, 'v) pydict" where
  "dict_del d k = (if k \<in> set (map fst d) then Inr (dict_remove d k) else Inl KeyError)"

definition dict_keys :: "('k, 'v) pydict \<Rightarrow> 'k list" where
  "dict_keys d = map fst d"

text \<open>
  \<^verbatim>\<open>min(d, key=d.get)\<close>: the first key, in iteration order, whose value is not greater
  than any other (CPython replaces the running minimum only on a strict \<^verbatim>\<open><\<close>). The
  iteration pairs each key with the value \<^verbatim>\<open>d.get\<close> returns for it. On an empty
  dictionary \<^verbatim>\<open>min\<close> raises ValueError, here \<open>None\<close>.
\<close>

fun min_scan :: "'k \<times> int \<Rightarrow> ('k \<times> int) list \<Rightarrow> 'k" where
  "min_scan best [] = fst best"
| "min_scan best (kv # d) = (if snd kv < snd best then min_scan kv d else min_scan best d)"

fun min_key :: "('k, int) pydict \<Rightarrow> 'k option" where
  "min_key [] = None"
| "min_key (kv # d) = Some (min_scan kv d)"

section \<open>FrameCache\<close>

text \<open>
  \<^verbatim>\<open>compute_hash\<close> resizes the region to 64x64 and returns \<^verbatim>\<open>imagehash.phash\<close> of it: a
  64-bit perceptual hash. Resizing and hashing are library code, so the hash function is
  a parameter \<open>ch\<close> of \<open>get\<close> and \<open>put\<close>. Subtracting two hashes counts the bit positions
  where they differ.
\<close>

type_synonym phash = "64 word"

definition hamming :: "phash \<Rightarrow> phash \<Rightarrow> nat" where
  "hamming a b = length (filter (\<lambda>i. bit a i \<noteq> bit b i) [0..<64])"

record 'b FrameCache =
  cache :: "(phash, 'b) pydict"
  cache_size :: int
  similarity_threshold :: int
  access_count :: "(phash, int) pydict"

definition FrameCache_init :: "int \<Rightarrow> int \<Rightarrow> 'b FrameCache" where
  "FrameCache_init capacity threshold =
     \<lparr>cache = [], cache_size = capacity, similarity_threshold = threshold, access_count = []\<rparr>"

text \<open>
  The scan of \<open>get\<close>: \<open>min_distance\<close> starts at \<^verbatim>\<open>float('inf')\<close>, here \<open>None\<close>, and every
  distance is below it.
\<close>

fun nearest :: "phash \<Rightarrow> phash list \<Rightarrow> phash option \<Rightarrow> nat option \<Rightarrow> phash option \<times> nat option" where
  "nearest frame_hash [] best_match min_distance = (best_match, min_distance)"
| "nearest frame_hash (cached_hash # rest) best_match min_distance =
     (let distance = hamming frame_hash cached_hash in
      if (case min_distance of None \<Rightarrow> True | Some m \<Rightarrow> distance < m)
      then nearest frame_hash rest (Some cached_hash) (Some distance)
      else nearest frame_hash rest best_match min_distance)"

definition get :: "('r \<Rightarrow> phash) \<Rightarrow> 'b FrameCache \<Rightarrow> 'r \<Rightarrow> error + ('b option \<times> 'b FrameCache)" where
  "get ch self roi =
     (let frame_hash = ch roi in
      case nearest frame_hash (dict_keys (cache self)) None None of
        (Some best_match, Some min_distance) \<Rightarrow>
          if int min_distance \<le> similarity_threshold self
          then (case map_of (access_count self) best_match of
                  None \<Rightarrow> Inl KeyError
                | Some n \<Rightarrow>
                    Inr (map_of (cache self) best_match,
                         self\<lparr>access_count := dict_set (access_count self) best_match (n + 1)\<rparr>))
          else Inr (None, self)
      | _ \<Rightarrow> Inr (None, self))"

definition store :: "phash \<Rightarrow> 'b \<Rightarrow> 'b FrameCache \<Rightarrow> 'b FrameCache" where
  "store frame_hash processed_result self =
     self\<lparr>cache := dict_set (cache self) frame_hash processed_result,
          access_count := dict_set (access_count self) frame_hash 1\<rparr>"

definition put :: "('r \<Rightarrow> phash) \<Rightarrow> 'b FrameCache \<Rightarrow> 'r \<Rightarrow> 'b \<Rightarrow> error + 'b FrameCache" where
  "put ch self roi processed_result =
     (let frame_hash = ch roi in
      if cache_size self \<le> int (length (cache self))
      then (case min_key (access_count self) of
              None \<Rightarrow> Inl (ValueError ''min() arg is an empty sequence'')
            | Some least_used \<Rightarrow>
                (case dict_del (cache self) least_used of
                   Inl e \<Rightarrow> Inl e
                 | Inr cache' \<Rightarrow>
                     (case dict_del (access_count self) least_used of
                        Inl e \<Rightarrow> Inl e
                      | Inr access_count' \<Rightarrow>
                          Inr (store frame_hash processed_result
                                 (self\<lparr>cache := cache', access_count := access_count'\<rparr>)))))
      else Inr (store frame_hash processed_result self))"

text \<open>
  The two dictionaries hold the same keys in the same order, each key once: \<open>put\<close> and
  \<open>get\<close> keep it so.
\<close>

definition consistent :: "'b FrameCache \<Rightarrow> bool" where
  "consistent self \<longleftrightarrow>
     distinct (map fst (cache self)) \<and> map fst (access_count self) = map fst (cache self)"

text \<open>
  A caller's sequence of calls. A call that raises has changed neither dictionary (each
  raise happens before the first assignment), so the cache is as before.
\<close>

datatype ('r, 'b) cache_call = Put 'r 'b | Get 'r

fun call :: "('r \<Rightarrow> phash) \<Rightarrow> 'b FrameCache \<Rightarrow> ('r, 'b) cache_call \<Rightarrow> 'b FrameCache" where
  "call ch self (Put roi processed_result) =
     (case put ch self roi processed_result of Inl e \<Rightarrow> self | Inr self' \<Rightarrow> self')"
| "call ch self (Get roi) =
     (case get ch self roi of Inl e \<Rightarrow> self | Inr (r, self') \<Rightarrow> self')"

fun calls :: "('r \<Rightarrow> phash) \<Rightarrow> 'b FrameCache \<Rightarrow> ('r, 'b) cache_call list \<Rightarrow> 'b FrameCache" where
  "calls ch self [] = self"
| "calls ch self (c # cs) = calls ch (call ch self c) cs"

section \<open>Arrays\<close>

text \<open>
  A two-dimensional numpy array is its shape and its elements. A colour frame has shape
  (rows, cols, 3); its element at (i, j) is the triple of the three channel values, in
  the channel order of the array. A mask or a grey image has one value per element.
\<close>

record 'a img =
  rows :: nat
  cols :: nat
  px :: "nat \<Rightarrow> nat \<Rightarrow> 'a"

type_synonym 'c colour = "'c \<times> 'c \<times> 'c"

type_synonym u8 = "8 word"

type_synonym box = "int \<times> int \<times> int \<times> int"

text \<open>
  A slice bound on an axis of length \<open>n\<close>: a negative bound counts from the end, and the
  result is clipped to \<open>0..n\<close>. The slice \<^verbatim>\<open>a[lo:hi]\<close> holds the indices from
  \<open>slice_index n lo\<close> up to, not including, \<open>slice_index n hi\<close> (none when the second is
  not above the first).
\<close>

definition slice_index :: "nat \<Rightarrow> int \<Rightarrow> nat" where
  "slice_index n i = (if i < 0 then nat (max 0 (int n + i)) else min n (nat i))"

text \<open>\<^verbatim>\<open>a[y_min:y_max, x_min:x_max]\<close>\<close>

definition crop :: "'a img \<Rightarrow> box \<Rightarrow> 'a img" where
  "crop a b =
     (case b of (y_min, y_max, x_min, x_max) \<Rightarrow>
        let y0 = slice_index (rows a) y_min; y1 = slice_index (rows a) y_max;
            x0 = slice_index (cols a) x_min; x1 = slice_index (cols a) x_max
        in \<lparr>rows = y1 - y0, cols = x1 - x0, px = (\<lambda>i j. px a (y0 + i) (x0 + j))\<rparr>)"

text \<open>The positions of \<open>a\<close> that the slice \<^verbatim>\<open>a[y_min:y_max, x_min:x_max]\<close> selects.\<close>

definition in_slice :: "'a img \<Rightarrow> box \<Rightarrow> nat \<Rightarrow> nat \<Rightarrow> bool" where
  "in_slice a b i j =
     (case b of (y_min, y_max, x_min, x_max) \<Rightarrow>
        slice_index (rows a) y_min \<le> i \<and> i < slice_index (rows a) y_max \<and>
        slice_index (cols a) x_min \<le> j \<and> j < slice_index (cols a) x_max)"

text \<open>The first row and the first column of that slice.\<close>

definition slice_top :: "'a img \<Rightarrow> box \<Rightarrow> nat" where
  "slice_top a b = (case b of (y_min, y_max, x_min, x_max) \<Rightarrow> slice_index (rows a) y_min)"

definition slice_left :: "'a img \<Rightarrow> box \<Rightarrow> nat" where
  "slice_left a b = (case b of (y_min, y_max, x_min, x_max) \<Rightarrow> slice_index (cols a) x_min)"

text \<open>
  Broadcasting of two axis lengths: equal, or one of them 1. An axis of length 1 is read
  at index 0 whatever the index of the result.
\<close>

definition broadcast :: "nat \<Rightarrow> nat \<Rightarrow> nat option" where
  "broadcast a b =
     (if a = b then Some a else if a = 1 then Some b else if b = 1 then Some a else None)"

definition bidx :: "nat \<Rightarrow> nat \<Rightarrow> nat" where
  "bidx n i = (if n = 1 then 0 else i)"

text \<open>The element of \<open>a\<close> that position (i, j) of a broadcast result reads.\<close>

definition at_broadcast :: "'a img \<Rightarrow> nat \<Rightarrow> nat \<Rightarrow> 'a" where
  "at_broadcast a i j = px a (bidx (rows a) i) (bidx (cols a) j)"

text \<open>An element-wise binary operation of numpy on two arrays.\<close>

definition elementwise :: "('a \<Rightarrow> 'b \<Rightarrow> 'd) \<Rightarrow> 'a img \<Rightarrow> 'b img \<Rightarrow> error + 'd img" where
  "elementwise f a b =
     (case (broadcast (rows a) (rows b), broadcast (cols a) (cols b)) of
        (Some r, Some c) \<Rightarrow>
          Inr \<lparr>rows = r, cols = c,
               px = (\<lambda>i j. f (at_broadcast a i j) (at_broadcast b i j))\<rparr>
      | _ \<Rightarrow> Inl (ValueError ''operands could not be broadcast together''))"

text \<open>
  \<^verbatim>\<open>a[y_min:y_max, x_min:x_max] = v\<close>: \<open>v\<close> is broadcast to the shape of the slice and
  each value is converted to the element type of \<open>a\<close> by \<open>conv\<close>.
\<close>

definition assign_slice :: "('b \<Rightarrow> 'a) \<Rightarrow> 'a img \<Rightarrow> box \<Rightarrow> 'b img \<Rightarrow> error + 'a img" where
  "assign_slice conv a b v =
     (case b of (y_min, y_max, x_min, x_max) \<Rightarrow>
        let y0 = slice_index (rows a) y_min; y1 = slice_index (rows a) y_max;
            x0 = slice_index (cols a) x_min; x1 = slice_index (cols a) x_max
        in if (rows v = y1 - y0 \<or> rows v = 1) \<and> (cols v = x1 - x0 \<or> cols v = 1)
           then Inr (a\<lparr>px := (\<lambda>i j. if y0 \<le> i \<and> i < y1 \<and> x0 \<le> j \<and> j < x1
                                      then conv (at_broadcast v (i - y0) (j - x0))
                                      else px a i j)\<rparr>)
           else Inl (ValueError ''could not broadcast input array''))"

definition map_img :: "('a \<Rightarrow> 'b) \<Rightarrow> 'a img \<Rightarrow> 'b img" where
  "map_img f a = \<lparr>rows = rows a, cols = cols a, px = (\<lambda>i j. f (px a i j))\<rparr>"

definition map_colour :: "('a \<Rightarrow> 'b) \<Rightarrow> 'a colour \<Rightarrow> 'b colour" where
  "map_colour f c = (case c of (c0, c1, c2) \<Rightarrow> (f c0, f c1, f c2))"

definition zip_colour :: "('a \<Rightarrow> 'b \<Rightarrow> 'd) \<Rightarrow> 'a colour \<Rightarrow> 'b colour \<Rightarrow> 'd colour" where
  "zip_colour f c d =
     (case c of (c0, c1, c2) \<Rightarrow> case d of (d0, d1, d2) \<Rightarrow> (f c0 d0, f c1 d1, f c2 d2))"

text \<open>\<^verbatim>\<open>cv2.cvtColor\<close> with COLOR\_BGR2RGB or COLOR\_RGB2BGR: channels 0 and 2 change places.\<close>

definition swap_rb :: "'c colour img \<Rightarrow> 'c colour img" where
  "swap_rb a = map_img (\<lambda>c. case c of (c0, c1, c2) \<Rightarrow> (c2, c1, c0)) a"

subsection \<open>Floating-point values that are compared\<close>

text \<open>
  The frame difference and the scene-change threshold are Python floats. Only their
  order is used, so a float is the real number it stands for, an infinity or NaN;
  \<open>float_gt\<close> is \<^verbatim>\<open>>\<close> on them (false whenever NaN takes part).
\<close>

datatype pyfloat = Finite real | PosInf | NegInf | NaN

fun float_gt :: "pyfloat \<Rightarrow> pyfloat \<Rightarrow> bool" where
  "float_gt (Finite x) (Finite y) = (y < x)"
| "float_gt (Finite x) NegInf = True"
| "float_gt PosInf (Finite y) = True"
| "float_gt PosInf NegInf = True"
| "float_gt a b = False"

section \<open>The library functions the code calls\<close>

text \<open>
  What cv2, numpy's float arithmetic, imagehash and the inpainting model compute is not
  part of the program. Each is a field of \<open>externals\<close>, and every theorem below holds for
  all values of these fields:
  \<^item> \<open>phash_of\<close>: \<^verbatim>\<open>FrameCache.compute_hash\<close>, the resize to 64x64 and \<^verbatim>\<open>imagehash.phash\<close>;
  \<^item> \<open>mean_squared_difference\<close>: the grey conversion and \<^verbatim>\<open>np.mean\<close> of the squared
    difference in \<^verbatim>\<open>calculate_frame_difference\<close>;
  \<^item> \<open>model\<close>: the call \<^verbatim>\<open>model(frame, mask_binary, config)\<close> in \<^verbatim>\<open>lama_inpaint\<close>, with the
    conversion of its result to the pixel type; it may raise;
  \<^item> \<open>gaussian_blur\<close>: \<^verbatim>\<open>cv2.GaussianBlur(mask.astype(np.float32), (21, 21), 0) / 255.0\<close>,
    the value at each position of an array of the mask's shape;
  \<^item> \<open>otsu\<close>: the grey conversion and Otsu threshold of \<^verbatim>\<open>detect_watermark_in_frame\<close>
    on a region that is not empty,
    the value at each position of an array of the region's shape;
  \<^item> \<open>fmul\<close>, \<open>fadd\<close>, \<open>fsub\<close>, \<open>fone\<close>: float32 multiplication, addition, subtraction and
    the constant 1; \<open>to_float\<close> converts a channel value to float32 and \<open>of_float\<close> is the
    conversion back that an assignment into the frame performs.
\<close>

record ('c, 'f) externals =
  phash_of :: "'c colour img \<Rightarrow> phash"
  mean_squared_difference :: "'c colour img \<Rightarrow> 'c colour img \<Rightarrow> pyfloat"
  model :: "'c colour img \<Rightarrow> u8 img \<Rightarrow> error + 'c colour img"
  gaussian_blur :: "u8 img \<Rightarrow> nat \<Rightarrow> nat \<Rightarrow> 'f"
  otsu :: "'c colour img \<Rightarrow> nat \<Rightarrow> nat \<Rightarrow> u8"
  fmul :: "'f \<Rightarrow> 'f \<Rightarrow> 'f"
  fadd :: "'f \<Rightarrow> 'f \<Rightarrow> 'f"
  fsub :: "'f \<Rightarrow> 'f \<Rightarrow> 'f"
  fone :: 'f
  to_float :: "'c \<Rightarrow> 'f"
  of_float :: "'f \<Rightarrow> 'c"

section \<open>FrameSkipDetector\<close>

record 'r FrameSkipDetector =
  keyframe_interval :: int
  scene_change_threshold :: pyfloat
  prev_roi :: "'r option"

definition FrameSkipDetector_init :: "int \<Rightarrow> pyfloat \<Rightarrow> 'r FrameSkipDetector" where
  "FrameSkipDetector_init interval threshold =
     \<lparr>keyframe_interval = interval, scene_change_threshold = threshold, prev_roi = None\<rparr>"

text \<open>Either region may be \<^verbatim>\<open>None\<close>; \<open>msd\<close> is the numeric part.\<close>

definition calculate_frame_difference ::
  "('r \<Rightarrow> 'r \<Rightarrow> pyfloat) \<Rightarrow> 'r option \<Rightarrow> 'r option \<Rightarrow> pyfloat" where
  "calculate_frame_difference msd roi1 roi2 =
     (case (roi1, roi2) of
        (Some r1, Some r2) \<Rightarrow> msd r1 r2
      | _ \<Rightarrow> PosInf)"

text \<open>\<^verbatim>\<open>frame_index % self.keyframe_interval\<close> raises ZeroDivisionError for an interval of 0.\<close>

definition should_process_frame ::
  "('r \<Rightarrow> 'r \<Rightarrow> pyfloat) \<Rightarrow> 'r FrameSkipDetector \<Rightarrow> int \<Rightarrow> 'r option \<Rightarrow> error + bool" where
  "should_process_frame msd self frame_index roi =
     (if keyframe_interval self = 0 then Inl ZeroDivisionError
      else
        let is_keyframe = (frame_index mod keyframe_interval self = 0) in
        if is_keyframe then Inr True
        else (case prev_roi self of
                Some p \<Rightarrow>
                  (let diff = calculate_frame_difference msd roi (Some p) in
                   if float_gt diff (scene_change_threshold self) then Inr True else Inr False)
              | None \<Rightarrow> Inr False))"

definition update_prev_roi :: "'r FrameSkipDetector \<Rightarrow> 'r option \<Rightarrow> 'r FrameSkipDetector" where
  "update_prev_roi self roi =
     (case roi of Some r \<Rightarrow> self\<lparr>prev_roi := Some r\<rparr> | None \<Rightarrow> self)"


section \<open>WatermarkProcessor\<close>

text \<open>
  \<^verbatim>\<open>lama_inpaint\<close>: the mask is made binary and handed to the model. The scaling of a
  float64 result to the 8-bit range is float arithmetic and belongs to \<open>model\<close>.
\<close>

definition lama_inpaint ::
  "('c, 'f) externals \<Rightarrow> 'c colour img \<Rightarrow> u8 img \<Rightarrow> error + 'c colour img" where
  "lama_inpaint ext frame mask_in =
     (let mask_binary = map_img (\<lambda>v. if 0 < v then 255 else 0) mask_in
      in model ext frame mask_binary)"

record 'c WatermarkProcessor =
  roi_coords :: box
  roi_mask :: "u8 img"
  frame_cache :: "'c colour img FrameCache"
  skip_detector :: "'c colour img FrameSkipDetector"
  prev_processed_roi :: "'c colour img option"

definition WatermarkProcessor_init :: "box \<Rightarrow> u8 img \<Rightarrow> 'c WatermarkProcessor" where
  "WatermarkProcessor_init coords mask_in =
     \<lparr>roi_coords = coords, roi_mask = mask_in,
      frame_cache = FrameCache_init 100 3,
      skip_detector = FrameSkipDetector_init 5 (Finite 50),
      prev_processed_roi = None\<rparr>"

definition extract_roi :: "'c WatermarkProcessor \<Rightarrow> 'c colour img \<Rightarrow> 'c colour img" where
  "extract_roi self frame_bgr = crop frame_bgr (roi_coords self)"

text \<open>
  The branch of \<open>process_frame\<close> taken when the frame must be processed: cache lookup,
  on a miss the model and \<open>put\<close>, then the two snapshots. It returns \<open>processed_roi\<close> and
  the processor as the branch leaves it.
\<close>

definition regenerate ::
  "('c, 'f) externals \<Rightarrow> 'c WatermarkProcessor \<Rightarrow> 'c colour img \<Rightarrow>
   error + ('c colour img \<times> 'c WatermarkProcessor)" where
  "regenerate ext self roi =
     (case get (phash_of ext) (frame_cache self) roi of
        Inl e \<Rightarrow> Inl e
      | Inr (hit, cache1) \<Rightarrow>
          (case (case hit of
                   Some processed_roi \<Rightarrow> Inr (processed_roi, cache1)
                 | None \<Rightarrow>
                     (case lama_inpaint ext roi (roi_mask self) of
                        Inl e \<Rightarrow> Inl e
                      | Inr out \<Rightarrow>
                          (let processed_roi = swap_rb out in
                           case put (phash_of ext) cache1 roi processed_roi of
                             Inl e \<Rightarrow> Inl e
                           | Inr cache2 \<Rightarrow> Inr (processed_roi, cache2)))) of
             Inl e \<Rightarrow> Inl e
           | Inr (processed_roi, cache') \<Rightarrow>
               Inr (processed_roi,
                    self\<lparr>frame_cache := cache',
                         skip_detector := update_prev_roi (skip_detector self) (Some roi),
                         prev_processed_roi := Some processed_roi\<rparr>)))"

text \<open>
  The blend of one pixel as the specification words it: per channel, feather times
  regenerated plus (1 - feather) times raw, in float32, stored back as a channel value.
\<close>

definition blend_channel :: "('c, 'f) externals \<Rightarrow> 'f \<Rightarrow> 'c \<Rightarrow> 'c \<Rightarrow> 'c" where
  "blend_channel ext feather regenerated raw =
     of_float ext
       (fadd ext (fmul ext feather (to_float ext regenerated))
                 (fmul ext (fsub ext (fone ext) feather) (to_float ext raw)))"

definition blend_pixel ::
  "('c, 'f) externals \<Rightarrow> 'f \<Rightarrow> 'c colour \<Rightarrow> 'c colour \<Rightarrow> 'c colour" where
  "blend_pixel ext feather regenerated raw =
     zip_colour (blend_channel ext feather) regenerated raw"

text \<open>
  The blend and the write-back. \<open>blend_mask\<close> has the shape of \<open>roi_mask\<close> and one value per
  position, used for all three channels (\<^verbatim>\<open>[:, :, np.newaxis]\<close>). With \<open>processed_roi\<close>
  \<^verbatim>\<open>None\<close> the product raises TypeError.
\<close>

definition feather :: "('c, 'f) externals \<Rightarrow> u8 img \<Rightarrow> 'f img" where
  "feather ext m = \<lparr>rows = rows m, cols = cols m, px = gaussian_blur ext m\<rparr>"

definition composite ::
  "('c, 'f) externals \<Rightarrow> 'c WatermarkProcessor \<Rightarrow> 'c colour img \<Rightarrow> 'c colour img \<Rightarrow>
   'c colour img option \<Rightarrow> error + 'c colour img" where
  "composite ext self frame_bgr roi processed =
     (let blend_mask = feather ext (roi_mask self);
          result = frame_bgr
      in case processed of
           None \<Rightarrow> Inl TypeError
         | Some processed_roi \<Rightarrow>
             (case elementwise (\<lambda>m c. map_colour (\<lambda>v. fmul ext m (to_float ext v)) c)
                     blend_mask processed_roi of
                Inl e \<Rightarrow> Inl e
              | Inr regenerated_part \<Rightarrow>
                  (case elementwise
                          (\<lambda>m c. map_colour (\<lambda>v. fmul ext (fsub ext (fone ext) m) (to_float ext v)) c)
                          blend_mask roi of
                     Inl e \<Rightarrow> Inl e
                   | Inr raw_part \<Rightarrow>
                       (case elementwise (zip_colour (fadd ext)) regenerated_part raw_part of
                          Inl e \<Rightarrow> Inl e
                        | Inr blended \<Rightarrow>
                            assign_slice (map_colour (of_float ext)) result (roi_coords self)
                              blended))))"

definition process_frame ::
  "('c, 'f) externals \<Rightarrow> 'c WatermarkProcessor \<Rightarrow> 'c colour img \<Rightarrow> int \<Rightarrow>
   error + ('c colour img \<times> 'c WatermarkProcessor)" where
  "process_frame ext self frame_bgr frame_index =
     (let roi = extract_roi self frame_bgr in
      case should_process_frame (mean_squared_difference ext) (skip_detector self)
             frame_index (Some roi) of
        Inl e \<Rightarrow> Inl e
      | Inr process_this_frame \<Rightarrow>
          (case (if process_this_frame
                 then (case regenerate ext self roi of
                         Inl e \<Rightarrow> Inl e
                       | Inr (processed_roi, self') \<Rightarrow> Inr (Some processed_roi, self'))
                 else Inr (prev_processed_roi self, self)) of
             Inl e \<Rightarrow> Inl e
           | Inr (processed, self') \<Rightarrow>
               (case composite ext self' frame_bgr roi processed of
                  Inl e \<Rightarrow> Inl e
                | Inr result \<Rightarrow> Inr (result, self'))))"

text \<open>
  The frame loop of \<^verbatim>\<open>process_video\<close>: \<^verbatim>\<open>process_frame_wrapper\<close> is applied to the frames
  in order, \<open>frame_count\<close> starting at 0 and growing by one with each frame. An exception
  ends the loop. The result is the processed frames and the processor after the last.
\<close>

fun process_frames ::
  "('c, 'f) externals \<Rightarrow> 'c WatermarkProcessor \<Rightarrow> int \<Rightarrow> 'c colour img list \<Rightarrow>
   error + ('c colour img list \<times> 'c WatermarkProcessor)" where
  "process_frames ext self frame_count [] = Inr ([], self)"
| "process_frames ext self frame_count (frame # frames) =
     (let frame_bgr = swap_rb frame in
      case process_frame ext self frame_bgr frame_count of
        Inl e \<Rightarrow> Inl e
      | Inr (result, self') \<Rightarrow>
          (case process_frames ext self' (frame_count + 1) frames of
             Inl e \<Rightarrow> Inl e
           | Inr (results, self'') \<Rightarrow> Inr (swap_rb result # results, self'')))"


section \<open>WatermarkDetector\<close>

text \<open>The selected region \<open>roi\<close> is (x, y, width, height), or \<^verbatim>\<open>None\<close> before a selection.\<close>

record WatermarkDetector =
  num_sample_frames :: int
  min_frame_count :: int
  dilation_kernel_size :: int
  roi :: "box option"

definition WatermarkDetector_init :: "int \<Rightarrow> int \<Rightarrow> int \<Rightarrow> WatermarkDetector" where
  "WatermarkDetector_init samples min_count kernel_size =
     \<lparr>num_sample_frames = samples, min_frame_count = min_count,
      dilation_kernel_size = kernel_size, roi = None\<rparr>"

definition zeros :: "nat \<Rightarrow> nat \<Rightarrow> u8 img" where
  "zeros r c = \<lparr>rows = r, cols = c, px = (\<lambda>i j. 0)\<rparr>"

text \<open>
  The slice bounds (y, y + height, x, x + width) of a region (x, y, width, height), and
  an array without elements.
\<close>

definition roi_box :: "box \<Rightarrow> box" where
  "roi_box r = (case r of (x, y, w, h) \<Rightarrow> (y, y + h, x, x + w))"

definition empty_img :: "'a img \<Rightarrow> bool" where
  "empty_img a \<longleftrightarrow> rows a = 0 \<or> cols a = 0"

text \<open>
  \<^verbatim>\<open>cv2.cvtColor\<close> raises \<^verbatim>\<open>cv2.error\<close> on an array without elements, so a region that
  selects nothing of the frame (a width or height of 0, or a region outside the frame)
  ends the detection with that error.
\<close>

definition detect_watermark_in_frame ::
  "('c, 'f) externals \<Rightarrow> WatermarkDetector \<Rightarrow> 'c colour img \<Rightarrow> error + u8 img" where
  "detect_watermark_in_frame ext self frame =
     (case roi self of
        None \<Rightarrow> Inl (ValueError ''ROI hasn't been selected yet. Call select_roi first.'')
      | Some r \<Rightarrow>
          (let b = roi_box r;
               roi_frame = crop frame b
           in if empty_img roi_frame then Inl Cv2Error
              else
                let binary_frame = \<lparr>rows = rows roi_frame, cols = cols roi_frame,
                                      px = otsu ext roi_frame\<rparr>;
                    mask0 = zeros (rows frame) (cols frame)
                in assign_slice id mask0 b binary_frame))"

text \<open>
  \<^verbatim>\<open>sum((mask == 255).astype(np.uint8) for mask in masks)\<close>: the votes are added as
  unsigned 8-bit arrays, so a count wraps around at 256.
\<close>

definition vote :: "u8 img \<Rightarrow> u8 img" where
  "vote m = map_img (\<lambda>v. if v = 255 then 1 else 0) m"

fun add_votes :: "u8 img \<Rightarrow> u8 img list \<Rightarrow> error + u8 img" where
  "add_votes acc [] = Inr acc"
| "add_votes acc (m # ms) =
     (case elementwise (+) acc (vote m) of
        Inl e \<Rightarrow> Inl e
      | Inr acc' \<Rightarrow> add_votes acc' ms)"

text \<open>\<^verbatim>\<open>np.where(final_mask >= self.min_frame_count, 255, 0).astype(np.uint8)\<close>\<close>

definition keep_voted :: "int \<Rightarrow> u8 img \<Rightarrow> u8 img" where
  "keep_voted min_count votes = map_img (\<lambda>v. if min_count \<le> uint v then 255 else 0) votes"

text \<open>
  \<^verbatim>\<open>cv2.dilate\<close> with a \<open>k\<close> by \<open>k\<close> kernel of ones: each element becomes the maximum over
  the window around it, the anchor at \<open>k div 2\<close>; positions outside the array do not
  count.
\<close>

definition window :: "nat \<Rightarrow> nat \<Rightarrow> nat \<Rightarrow> nat list" where
  "window k n i =
     map (\<lambda>d. i + d - k div 2) (filter (\<lambda>d. k div 2 \<le> i + d \<and> i + d - k div 2 < n) [0..<k])"

definition dilate :: "nat \<Rightarrow> u8 img \<Rightarrow> u8 img" where
  "dilate k a =
     \<lparr>rows = rows a, cols = cols a,
      px = (\<lambda>i j. fold max
                    (map (\<lambda>(i', j'). px a i' j')
                       (List.product (window k (rows a) i) (window k (cols a) j)))
                    0)\<rparr>"

text \<open>
  \<^verbatim>\<open>np.ones((k, k))\<close> raises ValueError for a negative \<open>k\<close>; for an empty kernel
  \<^verbatim>\<open>cv2.dilate\<close> uses its 3 by 3 default.
\<close>

definition dilate_twice :: "int \<Rightarrow> u8 img \<Rightarrow> error + u8 img" where
  "dilate_twice kernel_size final_mask =
     (if kernel_size < 0 then Inl (ValueError ''negative dimensions are not allowed'')
      else
        let k = (if kernel_size = 0 then 3 else nat kernel_size) in
        Inr (dilate k (dilate k final_mask)))"

fun detect_all ::
  "('c, 'f) externals \<Rightarrow> WatermarkDetector \<Rightarrow> 'c colour img list \<Rightarrow> error + u8 img list" where
  "detect_all ext self [] = Inr []"
| "detect_all ext self (frame # frames) =
     (case detect_watermark_in_frame ext self frame of
        Inl e \<Rightarrow> Inl e
      | Inr m \<Rightarrow>
          (case detect_all ext self frames of
             Inl e \<Rightarrow> Inl e
           | Inr ms \<Rightarrow> Inr (m # ms)))"

text \<open>
  \<open>generate_mask\<close> on the frames sampled from the clip, of which there is at least one
  (\<open>frame\<close>, then \<open>frames\<close>). Where no region has been selected, \<^verbatim>\<open>select_roi\<close> asks the
  user; \<open>selected\<close> is the user's answer, and the detector keeps it (\<open>with_roi\<close>).
  \<open>count_votes\<close> is the function up to the sum of the votes, \<open>generate_mask\<close> the whole:
  it returns the mask and the detector.
\<close>

definition with_roi :: "box \<Rightarrow> WatermarkDetector \<Rightarrow> WatermarkDetector" where
  "with_roi selected self = (case roi self of None \<Rightarrow> self\<lparr>roi := Some selected\<rparr> | Some r \<Rightarrow> self)"

definition count_votes ::
  "('c, 'f) externals \<Rightarrow> WatermarkDetector \<Rightarrow> 'c colour img \<Rightarrow> 'c colour img list \<Rightarrow>
   error + u8 img" where
  "count_votes ext self frame frames =
     (case detect_watermark_in_frame ext self frame of
        Inl e \<Rightarrow> Inl e
      | Inr m \<Rightarrow>
          (case detect_all ext self frames of
             Inl e \<Rightarrow> Inl e
           | Inr ms \<Rightarrow> add_votes (vote m) ms))"

definition generate_mask ::
  "('c, 'f) externals \<Rightarrow> box \<Rightarrow> WatermarkDetector \<Rightarrow> 'c colour img \<Rightarrow> 'c colour img list \<Rightarrow>
   error + (u8 img \<times> WatermarkDetector)" where
  "generate_mask ext selected self frame frames =
     (let self' = with_roi selected self in
      case count_votes ext self' frame frames of
        Inl e \<Rightarrow> Inl e
      | Inr votes \<Rightarrow>
          (let final_mask = keep_voted (min_frame_count self') votes in
           case dilate_twice (dilation_kernel_size self') final_mask of
             Inl e \<Rightarrow> Inl e
           | Inr dilated_mask \<Rightarrow> Inr (dilated_mask, self')))"

text \<open>\<^verbatim>\<open>np.where(watermark_mask > 0)\<close>: the positions of the positive elements, row by row.\<close>

definition foreground_indices :: "u8 img \<Rightarrow> (nat \<times> nat) list" where
  "foreground_indices a =
     concat (map (\<lambda>i. map (\<lambda>j. (i, j)) (filter (\<lambda>j. 0 < px a i j) [0..<cols a])) [0..<rows a])"

definition get_roi_coordinates :: "u8 img \<Rightarrow> int \<Rightarrow> error + box" where
  "get_roi_coordinates watermark_mask margin =
     (let y_indices = map fst (foreground_indices watermark_mask);
          x_indices = map snd (foreground_indices watermark_mask)
      in if length y_indices = 0 \<or> length x_indices = 0
         then Inl (ValueError ''No watermark region found in mask'')
         else
           let y_min = max 0 (int (Min (set y_indices)) - margin);
               y_max = min (int (rows watermark_mask)) (int (Max (set y_indices)) + margin);
               x_min = max 0 (int (Min (set x_indices)) - margin);
               x_max = min (int (cols watermark_mask)) (int (Max (set x_indices)) + margin)
           in Inr (y_min, y_max, x_min, x_max))"

definition extract_roi_mask :: "u8 img \<Rightarrow> box \<Rightarrow> u8 img" where
  "extract_roi_mask watermark_mask coords = crop watermark_mask coords"


section \<open>Example inputs\<close>

text \<open>
  Small concrete values on which the theorems below are instantiated: library functions
  on channel values in \<open>nat\<close> with \<open>int\<close> for float32, a 2 by 2 frame, and an Otsu
  threshold that marks the top-left pixel only.
\<close>

definition example_externals :: "(nat, int) externals" where
  "example_externals =
     \<lparr>phash_of = (\<lambda>a. 0),
      mean_squared_difference = (\<lambda>a b. Finite 0),
      model = (\<lambda>a m. Inr a),
      gaussian_blur = (\<lambda>m i j. 1),
      otsu = (\<lambda>a i j. if i = 0 \<and> j = 0 then 255 else 0),
      fmul = (*), fadd = (+), fsub = (-), fone = 1,
      to_float = int, of_float = nat\<rparr>"

definition example_frame :: "nat colour img" where
  "example_frame = \<lparr>rows = 2, cols = 2, px = (\<lambda>i j. (10, 20, 30))\<rparr>"

definition example_mask :: "u8 img" where
  "example_mask = \<lparr>rows = 1, cols = 1, px = (\<lambda>i j. 255)\<rparr>"

definition example_processor :: "nat WatermarkProcessor" where
  "example_processor = WatermarkProcessor_init (0, 1, 0, 1) example_mask"

definition example_detector :: WatermarkDetector where
  "example_detector = (WatermarkDetector_init 2 7 1)\<lparr>roi := Some (0, 0, 2, 2)\<rparr>"

definition no_difference :: "unit \<Rightarrow> unit \<Rightarrow> pyfloat" where
  "no_difference a b = Finite 0"

section \<open>Properties of the dictionaries\<close>

lemma length_dict_set: "length (dict_set d k v) = (if k \<in> set (map fst d) then length d else Suc (length d))"
  by (induction d k v rule: dict_set.induct) auto

lemma keys_dict_set: "map fst (dict_set d k v) = (if k \<in> set (map fst d) then map fst d else map fst d @ [k])"
  by (induction d k v rule: dict_set.induct) auto

lemma keys_dict_remove: "map fst (dict_remove d k) = remove1 k (map fst d)"
  by (induction d k rule: dict_remove.induct) auto

lemma length_dict_remove: "k \<in> set (map fst d) \<Longrightarrow> Suc (length (dict_remove d k)) = length d"
  by (induction d k rule: dict_remove.induct) auto

lemma dict_remove_split:
  "distinct (map fst (pre @ (k, v) # post)) \<Longrightarrow> dict_remove (pre @ (k, v) # post) k = pre @ post"
  by (induction pre) auto

lemma map_of_dict_set: "map_of (dict_set d k v) = (map_of d)(k \<mapsto> v)"
  by (induction d k v rule: dict_set.induct) (auto simp: fun_eq_iff)

lemma min_scan_first_least:
  "min_scan best d = k \<Longrightarrow>
     (k = fst best \<and> (\<forall>kv \<in> set d. snd best \<le> snd kv)) \<or>
     (\<exists>pre n post. d = pre @ (k, n) # post \<and> n < snd best \<and>
        (\<forall>kv \<in> set pre. n < snd kv) \<and> (\<forall>kv \<in> set post. n \<le> snd kv))"
proof (induction d arbitrary: best)
  case Nil
  then show ?case by simp
next
  case (Cons kv d)
  show ?case
  proof (cases "snd kv < snd best")
    case True
    with Cons.prems have "min_scan kv d = k" by simp
    from Cons.IH [OF this] show ?thesis
    proof
      assume a: "k = fst kv \<and> (\<forall>x \<in> set d. snd kv \<le> snd x)"
      show ?thesis
        by (rule disjI2, rule exI [of _ "[]"], rule exI [of _ "snd kv"], rule exI [of _ d])
          (use a True in auto)
    next
      assume "\<exists>pre n post. d = pre @ (k, n) # post \<and> n < snd kv \<and>
        (\<forall>x \<in> set pre. n < snd x) \<and> (\<forall>x \<in> set post. n \<le> snd x)"
      then obtain pre n post where p: "d = pre @ (k, n) # post" "n < snd kv"
        "\<forall>x \<in> set pre. n < snd x" "\<forall>x \<in> set post. n \<le> snd x" by blast
      show ?thesis
        by (rule disjI2, rule exI [of _ "kv # pre"], rule exI [of _ n], rule exI [of _ post])
          (use p True in auto)
    qed
  next
    case False
    with Cons.prems have "min_scan best d = k" by simp
    from Cons.IH [OF this] show ?thesis
    proof
      assume "k = fst best \<and> (\<forall>x \<in> set d. snd best \<le> snd x)"
      with False show ?thesis by auto
    next
      assume "\<exists>pre n post. d = pre @ (k, n) # post \<and> n < snd best \<and>
        (\<forall>x \<in> set pre. n < snd x) \<and> (\<forall>x \<in> set post. n \<le> snd x)"
      then obtain pre n post where p: "d = pre @ (k, n) # post" "n < snd best"
        "\<forall>x \<in> set pre. n < snd x" "\<forall>x \<in> set post. n \<le> snd x" by blast
      show ?thesis
        by (rule disjI2, rule exI [of _ "kv # pre"], rule exI [of _ n], rule exI [of _ post])
          (use p False in auto)
    qed
  qed
qed

lemma min_key_first_least:
  assumes "min_key d = Some k"
  shows "\<exists>pre n post. d = pre @ (k, n) # post \<and>
        (\<forall>kv \<in> set pre. n < snd kv) \<and> (\<forall>kv \<in> set post. n \<le> snd kv)"
proof (cases d)
  case Nil
  with assms show ?thesis by simp
next
  case (Cons kv d')
  with assms have "min_scan kv d' = k" by simp
  from min_scan_first_least [OF this] show ?thesis
  proof
    assume a: "k = fst kv \<and> (\<forall>x \<in> set d'. snd kv \<le> snd x)"
    show ?thesis
      by (rule exI [of _ "[]"], rule exI [of _ "snd kv"], rule exI [of _ d'])
        (use a Cons in auto)
  next
    assume "\<exists>pre n post. d' = pre @ (k, n) # post \<and> n < snd kv \<and>
        (\<forall>x \<in> set pre. n < snd x) \<and> (\<forall>x \<in> set post. n \<le> snd x)"
    then obtain pre n post where p: "d' = pre @ (k, n) # post" "n < snd kv"
        "\<forall>x \<in> set pre. n < snd x" "\<forall>x \<in> set post. n \<le> snd x" by blast
    show ?thesis
      by (rule exI [of _ "kv # pre"], rule exI [of _ n], rule exI [of _ post])
        (use p Cons in auto)
  qed
qed

lemma min_key_None: "min_key d = None \<longleftrightarrow> d = []"
  by (cases d) auto

section \<open>Properties of FrameCache\<close>

lemma distinct_keys_dict_set:
  "distinct (map fst d) \<Longrightarrow> distinct (map fst (dict_set d k v))"
  by (simp add: keys_dict_set)

lemma distinct_keys_dict_remove:
  "distinct (map fst d) \<Longrightarrow> distinct (map fst (dict_remove d k))"
  by (simp add: keys_dict_remove)

lemma consistent_init: "consistent (FrameCache_init C T)"
  by (simp add: consistent_def FrameCache_init_def)

lemma consistent_store: "consistent s \<Longrightarrow> consistent (store h p s)"
  by (auto simp: consistent_def store_def keys_dict_set)

lemma put_result:
  assumes "put ch s r p = Inr s'"
  shows "(cache_size s \<le> int (length (cache s)) \<and>
          (\<exists>k. min_key (access_count s) = Some k \<and> k \<in> set (map fst (cache s)) \<and>
               k \<in> set (map fst (access_count s)) \<and>
               s' = store (ch r) p (s\<lparr>cache := dict_remove (cache s) k,
                                       access_count := dict_remove (access_count s) k\<rparr>))) \<or>
         (\<not> cache_size s \<le> int (length (cache s)) \<and> s' = store (ch r) p s)"
  using assms
  by (auto simp: put_def dict_del_def Let_def split: if_splits option.splits sum.splits)

lemma consistent_put:
  assumes "consistent s" "put ch s r p = Inr s'"
  shows "consistent s'"
proof -
  from put_result [OF assms(2)] show ?thesis
  proof (elim disjE conjE exE)
    fix k
    assume "s' = store (ch r) p (s\<lparr>cache := dict_remove (cache s) k,
                                       access_count := dict_remove (access_count s) k\<rparr>)"
    moreover have "consistent (s\<lparr>cache := dict_remove (cache s) k,
                                       access_count := dict_remove (access_count s) k\<rparr>)"
      using assms(1) by (simp add: consistent_def keys_dict_remove)
    ultimately show ?thesis by (simp add: consistent_store)
  next
    assume "s' = store (ch r) p s"
    with assms(1) show ?thesis by (simp add: consistent_store)
  qed
qed

lemma cache_size_put: "put ch s r p = Inr s' \<Longrightarrow> cache_size s' = cache_size s"
  by (auto simp: put_def store_def dict_del_def Let_def split: if_splits option.splits sum.splits)

lemma key_of_Some: "map_of d k = Some n \<Longrightarrow> k \<in> fst ` set d"
  using map_of_eq_None_iff [of d k] by auto

lemma get_result:
  assumes "get ch s r = Inr (v, s')"
  shows "cache s' = cache s \<and> cache_size s' = cache_size s \<and>
         similarity_threshold s' = similarity_threshold s \<and>
         map fst (access_count s') = map fst (access_count s)"
  using assms
  by (auto simp: get_def Let_def keys_dict_set dest: key_of_Some
      split: if_splits option.splits sum.splits prod.splits)

lemma consistent_get:
  assumes "consistent s" "get ch s r = Inr (v, s')"
  shows "consistent s'"
  using get_result [OF assms(2)] assms(1)
  by (simp add: consistent_def)

lemma length_cache_put:
  assumes "consistent s" "put ch s r p = Inr s'" "1 \<le> cache_size s"
    "int (length (cache s)) \<le> cache_size s"
  shows "int (length (cache s')) \<le> cache_size s"
proof -
  from put_result [OF assms(2)] show ?thesis
  proof (elim disjE conjE exE)
    fix k
    assume k: "k \<in> set (map fst (cache s))"
      and s': "s' = store (ch r) p (s\<lparr>cache := dict_remove (cache s) k,
                                       access_count := dict_remove (access_count s) k\<rparr>)"
    from k have "Suc (length (dict_remove (cache s) k)) = length (cache s)"
      by (rule length_dict_remove)
    then have "length (cache s') \<le> length (cache s)"
      by (simp add: s' store_def length_dict_set)
    with assms(4) show ?thesis by simp
  next
    assume "\<not> cache_size s \<le> int (length (cache s))" "s' = store (ch r) p s"
    then show ?thesis by (simp add: store_def length_dict_set)
  qed
qed

lemma call_keeps:
  assumes "consistent s" "int (length (cache s)) \<le> cache_size s" "1 \<le> cache_size s"
  shows "consistent (call ch s c) \<and> int (length (cache (call ch s c))) \<le> cache_size (call ch s c)
         \<and> cache_size (call ch s c) = cache_size s"
proof (cases c)
  case (Put r p)
  show ?thesis
  proof (cases "put ch s r p")
    case (Inl e)
    with Put assms show ?thesis by simp
  next
    case (Inr s')
    with Put assms consistent_put [OF assms(1) Inr] length_cache_put [OF assms(1) Inr assms(3,2)]
      cache_size_put [OF Inr]
    show ?thesis by simp
  qed
next
  case (Get r)
  show ?thesis
  proof (cases "get ch s r")
    case (Inl e)
    with Get assms show ?thesis by simp
  next
    case (Inr vs)
    obtain v s' where vs: "vs = (v, s')" by (cases vs)
    with Inr have g: "get ch s r = Inr (v, s')" by simp
    from Get g assms consistent_get [OF assms(1) g] get_result [OF g]
    show ?thesis by simp
  qed
qed

lemma calls_keep:
  assumes "consistent s" "int (length (cache s)) \<le> cache_size s" "1 \<le> cache_size s"
  shows "consistent (calls ch s cs) \<and> int (length (cache (calls ch s cs))) \<le> cache_size s
         \<and> cache_size (calls ch s cs) = cache_size s"
  using assms
proof (induction cs arbitrary: s)
  case Nil
  then show ?case by simp
next
  case (Cons c cs)
  from call_keeps [OF Cons.prems, of ch c]
  have a: "consistent (call ch s c)" "int (length (cache (call ch s c))) \<le> cache_size (call ch s c)"
    "cache_size (call ch s c) = cache_size s" by simp_all
  with Cons.prems have "1 \<le> cache_size (call ch s c)" by simp
  from Cons.IH [OF a(1,2) this] a(3) show ?case by simp
qed

lemma split_by_keys:
  assumes "map fst c = map fst pre @ k # map fst post"
  shows "\<exists>cpre v cpost. c = cpre @ (k, v) # cpost \<and> map fst cpre = map fst pre \<and>
           map fst cpost = map fst post"
proof -
  from assms obtain c1 c2 where c: "c = c1 @ c2" "map fst c1 = map fst pre"
    "map fst c2 = k # map fst post"
    by (auto simp: map_eq_append_conv)
  from c(3) obtain x c3 where x: "c2 = x # c3" "fst x = k" "map fst c3 = map fst post"
    by (auto simp: map_eq_Cons_conv)
  then have "c = c1 @ (k, snd x) # c3" using c(1) by auto
  with c(2) x(3) show ?thesis by blast
qed

lemma put_evicts_first_least:
  assumes "consistent s" "cache_size s \<le> int (length (cache s))" "cache s \<noteq> []"
  shows "\<exists>pre k n post cpre v cpost.
           access_count s = pre @ (k, n) # post \<and>
           (\<forall>kv \<in> set pre. n < snd kv) \<and> (\<forall>kv \<in> set post. n \<le> snd kv) \<and>
           cache s = cpre @ (k, v) # cpost \<and>
           map fst cpre = map fst pre \<and> map fst cpost = map fst post \<and>
           put ch s r p =
             Inr (s\<lparr>cache := dict_set (cpre @ cpost) (ch r) p,
                    access_count := dict_set (pre @ post) (ch r) 1\<rparr>)"
proof -
  from assms(1) have keys: "map fst (access_count s) = map fst (cache s)"
    and dist: "distinct (map fst (cache s))" by (simp_all add: consistent_def)
  from keys assms(3) have "access_count s \<noteq> []" by auto
  then obtain k where k: "min_key (access_count s) = Some k"
    using min_key_None [of "access_count s"] by (cases "min_key (access_count s)") auto
  from min_key_first_least [OF k] obtain pre n post where
    a: "access_count s = pre @ (k, n) # post" "\<forall>kv \<in> set pre. n < snd kv"
       "\<forall>kv \<in> set post. n \<le> snd kv" by blast
  from a(1) keys have "map fst (cache s) = map fst pre @ k # map fst post" by simp
  from split_by_keys [OF this] obtain cpre v cpost where
    c: "cache s = cpre @ (k, v) # cpost" "map fst cpre = map fst pre"
       "map fst cpost = map fst post" by blast
  from dist c(1) have "dict_remove (cache s) k = cpre @ cpost"
    by (simp only: dict_remove_split)
  moreover from dist keys a(1) have "dict_remove (access_count s) k = pre @ post"
    by (metis dict_remove_split)
  moreover have "k \<in> set (map fst (cache s))" "k \<in> set (map fst (access_count s))"
    using a(1) c(1) by simp_all
  ultimately have "put ch s r p =
             Inr (s\<lparr>cache := dict_set (cpre @ cpost) (ch r) p,
                    access_count := dict_set (pre @ post) (ch r) 1\<rparr>)"
    using assms(2) k by (simp add: put_def dict_del_def store_def Let_def)
  with a c show ?thesis by blast
qed

lemma hamming_self: "hamming h h = 0"
  by (simp add: hamming_def)

text \<open>
  Claim C2. Start from an empty cache of capacity \<open>C\<close>, at least 1, and make any sequence
  of \<open>put\<close> and \<open>get\<close> calls. The cache then never holds more than \<open>C\<close> entries. If it
  holds \<open>C\<close>, the next \<open>put\<close> removes exactly one entry before it stores the new one: the
  entry of the first key, in iteration order, whose access count is minimal (every key
  before it has a larger count, every key after it has one at least as large).
\<close>

theorem FrameCache_bounded_evicts_least_used:
  assumes "1 \<le> C" and "s = calls ch (FrameCache_init C T) cs"
  shows "int (length (cache s)) \<le> C \<and>
     (C \<le> int (length (cache s)) \<longrightarrow>
       (\<exists>pre k n post cpre v cpost.
           access_count s = pre @ (k, n) # post \<and>
           (\<forall>kv \<in> set pre. n < snd kv) \<and> (\<forall>kv \<in> set post. n \<le> snd kv) \<and>
           cache s = cpre @ (k, v) # cpost \<and>
           map fst cpre = map fst pre \<and> map fst cpost = map fst post \<and>
           put ch s r p =
             Inr (s\<lparr>cache := dict_set (cpre @ cpost) (ch r) p,
                    access_count := dict_set (pre @ post) (ch r) 1\<rparr>)))"
proof -
  have "consistent (calls ch (FrameCache_init C T) cs) \<and>
        int (length (cache (calls ch (FrameCache_init C T) cs))) \<le> C \<and>
        cache_size (calls ch (FrameCache_init C T) cs) = C"
    using calls_keep [of "FrameCache_init C T" ch cs] assms(1)
    by (simp add: consistent_init) (simp add: FrameCache_init_def)
  then
  have k: "consistent s" "int (length (cache s)) \<le> C" "cache_size s = C"
    by (simp_all add: assms(2) FrameCache_init_def)
  have "\<exists>pre k n post cpre v cpost.
           access_count s = pre @ (k, n) # post \<and>
           (\<forall>kv \<in> set pre. n < snd kv) \<and> (\<forall>kv \<in> set post. n \<le> snd kv) \<and>
           cache s = cpre @ (k, v) # cpost \<and>
           map fst cpre = map fst pre \<and> map fst cpost = map fst post \<and>
           put ch s r p =
             Inr (s\<lparr>cache := dict_set (cpre @ cpost) (ch r) p,
                    access_count := dict_set (pre @ post) (ch r) 1\<rparr>)"
    if full: "C \<le> int (length (cache s))"
  proof -
    from full assms(1) have b: "cache s \<noteq> []" by auto
    from full k(3) have a: "cache_size s \<le> int (length (cache s))" by simp
    show ?thesis by (rule put_evicts_first_least [OF k(1) a b])
  qed
  with k(2) show ?thesis by blast
qed

theorem FrameCache_bounded_evicts_least_used_witness:
  "(1::int) \<le> 2 \<and>
   int (length (cache (calls (of_nat :: nat \<Rightarrow> phash) (FrameCache_init 2 5)
                         [Put 1 ''A'', Put 2 ''B'', Get 1]))) \<le> 2 \<and>
   2 \<le> int (length (cache (calls (of_nat :: nat \<Rightarrow> phash) (FrameCache_init 2 5)
                             [Put 1 ''A'', Put 2 ''B'', Get 1]))) \<and>
   put (of_nat :: nat \<Rightarrow> phash)
       (calls (of_nat :: nat \<Rightarrow> phash) (FrameCache_init 2 5) [Put 1 ''A'', Put 2 ''B'', Get 1])
       3 ''C'' =
     Inr \<lparr>cache = [(1, ''A''), (3, ''C'')], cache_size = 2, similarity_threshold = 5,
          access_count = [(1, 2), (3, 1)]\<rparr>"
proof -
  let ?s = "calls (of_nat :: nat \<Rightarrow> phash) (FrameCache_init 2 5)
              [Put 1 ''A'', Put 2 ''B'', Get 1]"
  have h: "(1::int) \<le> 2" by simp
  have e: "?s = \<lparr>cache = [(1, ''A''), (2, ''B'')], cache_size = 2, similarity_threshold = 5,
                  access_count = [(1, 2), (2, 1)]\<rparr>"
    by (simp add: FrameCache_init_def put_def get_def store_def dict_del_def dict_keys_def
        hamming_def)
  from FrameCache_bounded_evicts_least_used [OF h refl, of of_nat 5 "[Put 1 ''A'', Put 2 ''B'', Get 1]"]
  have "int (length (cache ?s)) \<le> 2" by blast
  moreover have "2 \<le> int (length (cache ?s))" by (subst e) simp
  moreover have "put (of_nat :: nat \<Rightarrow> phash) ?s 3 ''C'' =
     Inr \<lparr>cache = [(1, ''A''), (3, ''C'')], cache_size = 2, similarity_threshold = 5,
          access_count = [(1, 2), (3, 1)]\<rparr>"
    by (subst e) (simp add: put_def store_def dict_del_def)
  ultimately show ?thesis by simp
qed

text \<open>
  Claim C7. On an empty cache with a positive similarity threshold and room for at least
  one entry, \<open>put\<close> of a region \<open>R\<close> with buffer \<open>P\<close> succeeds and \<open>get\<close> of \<open>R\<close> right after
  returns \<open>P\<close>: the signature of \<open>R\<close> is at distance 0 from itself.
\<close>

theorem put_then_get_returns_buffer:
  assumes "0 < T" and "1 \<le> C"
  shows "\<exists>s s'. put ch (FrameCache_init C T) R P = Inr s \<and> get ch s R = Inr (Some P, s')"
proof -
  let ?s = "\<lparr>cache = [(ch R, P)], cache_size = C, similarity_threshold = T,
             access_count = [(ch R, 1)]\<rparr>"
  from assms(2) have "put ch (FrameCache_init C T) R P = Inr ?s"
    by (simp add: put_def FrameCache_init_def store_def Let_def)
  moreover from assms(1) have "get ch ?s R =
      Inr (Some P, ?s\<lparr>access_count := dict_set (access_count ?s) (ch R) (1 + 1)\<rparr>)"
    by (simp add: get_def dict_keys_def hamming_self Let_def)
  ultimately show ?thesis by blast
qed

theorem put_then_get_returns_buffer_witness:
  "(0::int) < 3 \<and> (1::int) \<le> 100 \<and>
   (\<exists>s s'. put (of_nat :: nat \<Rightarrow> phash) (FrameCache_init 100 3) 7 ''P'' = Inr s \<and>
            get (of_nat :: nat \<Rightarrow> phash) s 7 = Inr (Some ''P'', s'))"
proof -
  have a: "(0::int) < 3" and b: "(1::int) \<le> 100" by simp_all
  from put_then_get_returns_buffer [OF a b, of "of_nat :: nat \<Rightarrow> phash" 7 "''P''"] a b
  show ?thesis by simp
qed

lemma put_below_capacity:
  "\<not> cache_size s \<le> int (length (cache s)) \<Longrightarrow> put ch s r p = Inr (store (ch r) p s)"
  by (simp add: put_def Let_def)

lemma put_at_capacity:
  assumes "consistent s" "cache_size s \<le> int (length (cache s))" "min_key (access_count s) = Some k"
  shows "put ch s r p =
           Inr (store (ch r) p (s\<lparr>cache := dict_remove (cache s) k,
                                   access_count := dict_remove (access_count s) k\<rparr>))
         \<and> k \<in> set (map fst (cache s))"
proof -
  from min_key_first_least [OF assms(3)] have "k \<in> set (map fst (access_count s))" by force
  moreover from this assms(1) have "k \<in> set (map fst (cache s))" by (metis consistent_def)
  ultimately show ?thesis using assms(2,3) by (simp add: put_def dict_del_def Let_def)
qed

text \<open>
  Claim C10. Let the signature of the region be a key of the cache already. Then \<open>put\<close>
  returns a cache in which that key has the new buffer and the access count 1, still
  once, and the cache has not grown. Below capacity the entry is overwritten in place. At
  capacity the first least-used key \<open>k\<close> is removed first; when \<open>k\<close> is another key than
  the region's signature the cache ends one entry smaller than it was, and when \<open>k\<close> is
  that signature the entry is removed and stored again.
\<close>

theorem put_stored_signature:
  assumes "consistent s" and "ch r \<in> set (map fst (cache s))"
  shows "\<exists>s'. put ch s r p = Inr s' \<and>
     map_of (cache s') (ch r) = Some p \<and> map_of (access_count s') (ch r) = Some 1 \<and>
     consistent s' \<and> length (cache s') \<le> length (cache s) \<and>
     (if cache_size s \<le> int (length (cache s))
      then \<exists>pre k n post.
             access_count s = pre @ (k, n) # post \<and>
             (\<forall>kv \<in> set pre. n < snd kv) \<and> (\<forall>kv \<in> set post. n \<le> snd kv) \<and>
             s' = store (ch r) p (s\<lparr>cache := dict_remove (cache s) k,
                                     access_count := dict_remove (access_count s) k\<rparr>) \<and>
             (k \<noteq> ch r \<longrightarrow> Suc (length (cache s')) = length (cache s)) \<and>
             (k = ch r \<longrightarrow> length (cache s') = length (cache s))
      else s' = store (ch r) p s \<and> map fst (cache s') = map fst (cache s))"
proof (cases "cache_size s \<le> int (length (cache s))")
  case False
  let ?s' = "store (ch r) p s"
  have "put ch s r p = Inr ?s'" using False by (rule put_below_capacity)
  moreover have "map_of (cache ?s') (ch r) = Some p" "map_of (access_count ?s') (ch r) = Some 1"
    by (simp_all add: store_def map_of_dict_set)
  moreover have "consistent ?s'" using assms(1) by (rule consistent_store)
  moreover have "map fst (cache ?s') = map fst (cache s)"
    using assms(2) by (simp add: store_def keys_dict_set)
  moreover from this have "length (cache ?s') \<le> length (cache s)"
    by (metis length_map order_refl)
  ultimately show ?thesis using False by auto
next
  case True
  from assms have keys: "map fst (access_count s) = map fst (cache s)"
    and dist: "distinct (map fst (cache s))" by (simp_all add: consistent_def)
  from assms(2) keys have "access_count s \<noteq> []" by auto
  then obtain k where k: "min_key (access_count s) = Some k"
    using min_key_None [of "access_count s"] by (cases "min_key (access_count s)") auto
  from min_key_first_least [OF k] obtain pre n post where
    a: "access_count s = pre @ (k, n) # post" "\<forall>kv \<in> set pre. n < snd kv"
       "\<forall>kv \<in> set post. n \<le> snd kv" by blast
  let ?t = "s\<lparr>cache := dict_remove (cache s) k, access_count := dict_remove (access_count s) k\<rparr>"
  let ?s' = "store (ch r) p ?t"
  from put_at_capacity [OF assms(1) True k, where ch = ch and r = r and p = p]
  have p: "put ch s r p = Inr ?s'" and kin: "k \<in> set (map fst (cache s))" by simp_all
  have t: "consistent ?t" using assms(1) by (simp add: consistent_def keys_dict_remove)
  have m: "map_of (cache ?s') (ch r) = Some p" "map_of (access_count ?s') (ch r) = Some 1"
    by (simp_all add: store_def map_of_dict_set)
  have c: "consistent ?s'" using t by (rule consistent_store)
  from kin have len: "Suc (length (dict_remove (cache s) k)) = length (cache s)"
    by (rule length_dict_remove)
  have l1: "Suc (length (cache ?s')) = length (cache s)" if "k \<noteq> ch r"
  proof -
    from that assms(2) have "ch r \<in> set (map fst (dict_remove (cache s) k))"
      by (simp add: keys_dict_remove)
    then have "length (cache ?s') = length (dict_remove (cache s) k)"
      by (simp add: store_def length_dict_set)
    with len show ?thesis by simp
  qed
  have l2: "length (cache ?s') = length (cache s)" if "k = ch r"
  proof -
    from that dist have "ch r \<notin> set (map fst (dict_remove (cache s) k))"
      by (simp add: keys_dict_remove)
    then have "length (cache ?s') = Suc (length (dict_remove (cache s) k))"
      by (simp add: store_def length_dict_set)
    with len show ?thesis by simp
  qed
  from l1 l2 have l: "length (cache ?s') \<le> length (cache s)" by (cases "k = ch r") auto
  have "\<exists>pre k n post.
             access_count s = pre @ (k, n) # post \<and>
             (\<forall>kv \<in> set pre. n < snd kv) \<and> (\<forall>kv \<in> set post. n \<le> snd kv) \<and>
             ?s' = store (ch r) p (s\<lparr>cache := dict_remove (cache s) k,
                                     access_count := dict_remove (access_count s) k\<rparr>) \<and>
             (k \<noteq> ch r \<longrightarrow> Suc (length (cache ?s')) = length (cache s)) \<and>
             (k = ch r \<longrightarrow> length (cache ?s') = length (cache s))"
    using a l1 l2 by blast
  with p m c l True show ?thesis by (intro exI [of _ ?s']) simp
qed

theorem put_stored_signature_witness:
  "consistent \<lparr>cache = [(1, ''A''), (2, ''B'')], cache_size = 2, similarity_threshold = 5,
               access_count = [(1, 2), (2, 1)]\<rparr> \<and>
   (of_nat :: nat \<Rightarrow> phash) 1 \<in> set (map fst [(1 :: phash, ''A''), (2, ''B'')]) \<and>
   put (of_nat :: nat \<Rightarrow> phash)
     \<lparr>cache = [(1, ''A''), (2, ''B'')], cache_size = 2, similarity_threshold = 5,
      access_count = [(1, 2), (2, 1)]\<rparr> 1 ''Z'' =
     Inr \<lparr>cache = [(1, ''Z'')], cache_size = 2, similarity_threshold = 5,
          access_count = [(1, 1)]\<rparr> \<and>
   (\<exists>s'. put (of_nat :: nat \<Rightarrow> phash)
     \<lparr>cache = [(1, ''A''), (2, ''B'')], cache_size = 2, similarity_threshold = 5,
      access_count = [(1, 2), (2, 1)]\<rparr> 1 ''Z'' = Inr s' \<and> length (cache s') < 2)"
proof -
  let ?s = "\<lparr>cache = [(1 :: phash, ''A''), (2, ''B'')], cache_size = 2, similarity_threshold = 5,
             access_count = [(1, 2), (2, 1)]\<rparr>"
  have a: "consistent ?s" by (simp add: consistent_def)
  have b: "(of_nat :: nat \<Rightarrow> phash) 1 \<in> set (map fst (cache ?s))" by simp
  have e: "put (of_nat :: nat \<Rightarrow> phash) ?s 1 ''Z'' =
     Inr \<lparr>cache = [(1, ''Z'')], cache_size = 2, similarity_threshold = 5,
          access_count = [(1, 1)]\<rparr>"
    by (simp add: put_def store_def dict_del_def)
  from put_stored_signature [where s = "?s" and ch = "of_nat :: nat \<Rightarrow> phash" and r = 1
      and p = "''Z''"] a b
  obtain s' where
    "put (of_nat :: nat \<Rightarrow> phash) ?s 1 ''Z'' = Inr s'" "length (cache s') \<le> length (cache ?s)"
    by blast
  with e have "\<exists>s'. put (of_nat :: nat \<Rightarrow> phash) ?s 1 ''Z'' = Inr s' \<and> length (cache s') < 2"
    by auto
  with a b e show ?thesis by simp
qed

section \<open>Properties of FrameSkipDetector\<close>

text \<open>
  Claim C5. At a frame index that is a multiple of the keyframe interval (an interval
  other than 0, for which \<^verbatim>\<open>%\<close> is defined), \<open>should_process_frame\<close> returns true whatever
  the region, the stored reference, the threshold and the difference function are.
\<close>

theorem keyframe_always_processed:
  assumes "keyframe_interval self \<noteq> 0" and "keyframe_interval self dvd frame_index"
  shows "should_process_frame msd self frame_index region = Inr True"
  using assms by (simp add: should_process_frame_def mod_eq_0_iff_dvd)

theorem keyframe_always_processed_witness:
  "keyframe_interval \<lparr>keyframe_interval = 5, scene_change_threshold = PosInf, prev_roi = Some ()\<rparr> \<noteq> 0 \<and>
   keyframe_interval \<lparr>keyframe_interval = 5, scene_change_threshold = PosInf, prev_roi = Some ()\<rparr> dvd 15 \<and>
   should_process_frame no_difference
     \<lparr>keyframe_interval = 5, scene_change_threshold = PosInf, prev_roi = Some ()\<rparr> 15 (Some ()) = Inr True"
proof -
  let ?d = "\<lparr>keyframe_interval = 5, scene_change_threshold = PosInf, prev_roi = Some ()\<rparr>"
  have a: "keyframe_interval ?d \<noteq> 0" and b: "keyframe_interval ?d dvd 15" by simp_all
  from keyframe_always_processed [OF a b] a b show ?thesis by simp
qed

text \<open>
  Claim C4 says that a frame that is no keyframe and has no stored reference gets the
  sentinel difference and is therefore processed. The detector of \<open>WatermarkProcessor\<close>,
  before any reference is stored, skips frame 1.
\<close>

theorem no_reference_means_skip_counterexample:
  "should_process_frame no_difference (FrameSkipDetector_init 5 (Finite 50)) 1 (Some ()) = Inr False"
  by (simp add: should_process_frame_def FrameSkipDetector_init_def)

text \<open>
  Claim C4 as amended. At an index that is not a multiple of the keyframe interval, a
  detector without a stored reference returns false: the guard on \<open>prev_roi\<close> keeps it
  from computing a difference at all. The difference computation itself answers a missing
  region with the sentinel infinity, which exceeds every finite threshold, and does not
  raise.
\<close>

theorem no_reference_means_skip:
  assumes "keyframe_interval self \<noteq> 0" and "\<not> keyframe_interval self dvd frame_index"
    and "prev_roi self = None"
  shows "should_process_frame msd self frame_index region = Inr False \<and>
         calculate_frame_difference msd region (prev_roi self) = PosInf \<and>
         float_gt PosInf (Finite t)"
  using assms
  by (simp add: should_process_frame_def calculate_frame_difference_def mod_eq_0_iff_dvd
      split: option.splits)

theorem no_reference_means_skip_witness:
  "keyframe_interval (FrameSkipDetector_init 5 (Finite 50) :: unit FrameSkipDetector) \<noteq> 0 \<and>
   \<not> keyframe_interval (FrameSkipDetector_init 5 (Finite 50) :: unit FrameSkipDetector) dvd 7 \<and>
   prev_roi (FrameSkipDetector_init 5 (Finite 50) :: unit FrameSkipDetector) = None \<and>
   should_process_frame no_difference (FrameSkipDetector_init 5 (Finite 50)) 7 (Some ()) = Inr False \<and>
   calculate_frame_difference no_difference (Some ()) None = PosInf"
proof -
  let ?d = "FrameSkipDetector_init 5 (Finite 50) :: unit FrameSkipDetector"
  have a: "keyframe_interval ?d \<noteq> 0" and b: "\<not> keyframe_interval ?d dvd 7"
    and c: "prev_roi ?d = None"
    by (simp_all add: FrameSkipDetector_init_def)
  from no_reference_means_skip [OF a b c, of no_difference "Some ()"] a b c
  show ?thesis by simp
qed

section \<open>Properties of the bounding box\<close>

lemma foreground_indices_empty:
  assumes "\<forall>i<rows m. \<forall>j<cols m. px m i j = 0"
  shows "foreground_indices m = []"
proof -
  have "filter (\<lambda>j. 0 < px m i j) [0..<cols m] = []" if "i < rows m" for i
    using assms that by (simp add: filter_empty_conv)
  then show ?thesis by (simp add: foreground_indices_def)
qed

text \<open>
  Claim C8. For a mask without a positive element \<open>get_roi_coordinates\<close> raises the
  ValueError "No watermark region found in mask" (the specification's
  NoWatermarkDetected), whatever the margin.
\<close>

theorem empty_mask_raises:
  assumes "\<forall>i<rows m. \<forall>j<cols m. px m i j = 0"
  shows "get_roi_coordinates m margin = Inl (ValueError ''No watermark region found in mask'')"
  by (simp add: get_roi_coordinates_def foreground_indices_empty [OF assms])

theorem empty_mask_raises_witness:
  "get_roi_coordinates (zeros 3 4) 50 = Inl (ValueError ''No watermark region found in mask'')"
proof -
  have a: "\<forall>i<rows (zeros 3 4). \<forall>j<cols (zeros 3 4). px (zeros 3 4) i j = 0"
    by (simp add: zeros_def)
  from empty_mask_raises [OF a] show ?thesis .
qed

section \<open>Properties of the frame loop\<close>

lemma regenerate_result:
  assumes "regenerate ext s r = Inr (p, s')"
  shows "prev_processed_roi s' = Some p \<and>
         keyframe_interval (skip_detector s') = keyframe_interval (skip_detector s) \<and>
         roi_coords s' = roi_coords s \<and> roi_mask s' = roi_mask s"
  using assms
  by (auto simp: regenerate_def update_prev_roi_def Let_def
      split: sum.splits option.splits prod.splits)

lemma process_frame_result:
  assumes "process_frame ext s f i = Inr (res, s')"
  shows "keyframe_interval (skip_detector s') = keyframe_interval (skip_detector s) \<and>
         roi_coords s' = roi_coords s \<and> roi_mask s' = roi_mask s \<and>
         (should_process_frame (mean_squared_difference ext) (skip_detector s) i
            (Some (extract_roi s f)) = Inr True \<longrightarrow> prev_processed_roi s' \<noteq> None) \<and>
         (should_process_frame (mean_squared_difference ext) (skip_detector s) i
            (Some (extract_roi s f)) = Inr False \<longrightarrow> s' = s)"
  using assms
  by (auto simp: process_frame_def Let_def dest: regenerate_result
      split: sum.splits option.splits prod.splits if_splits)

lemma should_process_frame_keyframe:
  "should_process_frame msd d i r = Inr False \<Longrightarrow> \<not> keyframe_interval d dvd i"
  by (auto simp: should_process_frame_def Let_def mod_eq_0_iff_dvd split: if_splits)

lemma process_frame_snapshot:
  assumes "process_frame ext s f i = Inr (res, s')"
    and "prev_processed_roi s \<noteq> None \<or> keyframe_interval (skip_detector s) dvd i"
  shows "prev_processed_roi s' \<noteq> None"
proof -
  let ?d = "should_process_frame (mean_squared_difference ext) (skip_detector s) i
            (Some (extract_roi s f))"
  from assms(1) obtain b where b: "?d = Inr b"
    by (auto simp: process_frame_def Let_def split: sum.splits)
  show ?thesis
  proof (cases b)
    case True
    with b process_frame_result [OF assms(1)] show ?thesis by simp
  next
    case False
    with b have "?d = Inr False" by simp
    with process_frame_result [OF assms(1)] should_process_frame_keyframe [OF this] assms(2)
    show ?thesis by simp
  qed
qed

lemma process_frames_snapshot:
  assumes "process_frames ext s i fs = Inr (outs, s')"
    and "prev_processed_roi s \<noteq> None \<or> keyframe_interval (skip_detector s) dvd i"
  shows "prev_processed_roi s' \<noteq> None \<or> (fs = [] \<and> s' = s)"
  using assms
proof (induction fs arbitrary: s i outs)
  case Nil
  then show ?case by simp
next
  case (Cons f fs)
  from Cons.prems(1) obtain res s1 outs1 where
    1: "process_frame ext s (swap_rb f) i = Inr (res, s1)" and
    2: "process_frames ext s1 (i + 1) fs = Inr (outs1, s')"
    by (auto simp: Let_def split: sum.splits prod.splits)
  from process_frame_snapshot [OF 1 Cons.prems(2)] have "prev_processed_roi s1 \<noteq> None" .
  with Cons.IH [OF 2] show ?case by auto
qed

lemma process_frames_snoc:
  "process_frames ext s i (fs @ [f]) =
     (case process_frames ext s i fs of
        Inl e \<Rightarrow> Inl e
      | Inr (outs, s') \<Rightarrow>
          (case process_frame ext s' (swap_rb f) (i + int (length fs)) of
             Inl e \<Rightarrow> Inl e
           | Inr (res, s'') \<Rightarrow> Inr (outs @ [swap_rb res], s'')))"
  by (induction fs arbitrary: s i) (auto simp: Let_def algebra_simps split: sum.splits prod.splits)

text \<open>
  Claim C1. Let the frames \<open>seen\<close> have been processed in order from frame index 0,
  starting from any processor \<open>p0\<close>, and let \<open>p\<close> be the processor they leave. If the skip
  detector then decides that the next frame, whose index is the number of frames seen, is
  not to be processed, \<open>prev_processed_roi\<close> of \<open>p\<close> is not \<^verbatim>\<open>None\<close>: index 0 is a multiple
  of every keyframe interval, so the first frame was processed and set the snapshot, and
  no later frame clears it. (\<open>process_frames_snoc\<close> above shows that the next frame is
  indeed processed in \<open>p\<close> with that index.)
\<close>

theorem skip_branch_has_snapshot:
  assumes "process_frames ext p0 0 seen = Inr (outs, p)"
    and "should_process_frame (mean_squared_difference ext) (skip_detector p)
           (int (length seen)) (Some (extract_roi p (swap_rb frame))) = Inr False"
  shows "prev_processed_roi p \<noteq> None"
proof -
  have "prev_processed_roi p0 \<noteq> None \<or> keyframe_interval (skip_detector p0) dvd 0" by simp
  from process_frames_snapshot [OF assms(1) this]
  show ?thesis
  proof
    assume "seen = [] \<and> p = p0"
    with should_process_frame_keyframe [OF assms(2)] show ?thesis by simp
  qed
qed

lemmas example_run_defs =
  process_frame_def example_processor_def WatermarkProcessor_init_def
  FrameCache_init_def FrameSkipDetector_init_def should_process_frame_def
  calculate_frame_difference_def
  regenerate_def get_def put_def store_def dict_keys_def lama_inpaint_def
  example_externals_def extract_roi_def crop_def slice_index_def swap_rb_def map_img_def
  update_prev_roi_def composite_def feather_def elementwise_def at_broadcast_def
  broadcast_def bidx_def assign_slice_def example_frame_def example_mask_def Let_def

theorem skip_branch_has_snapshot_witness:
  "\<not> isl (process_frames example_externals example_processor 0 [example_frame]) \<and>
   should_process_frame (mean_squared_difference example_externals)
     (skip_detector (snd (projr (process_frames example_externals example_processor 0
                                   [example_frame]))))
     (int (length [example_frame]))
     (Some (extract_roi (snd (projr (process_frames example_externals example_processor 0
                                       [example_frame])))
                        (swap_rb example_frame))) = Inr False \<and>
   prev_processed_roi (snd (projr (process_frames example_externals example_processor 0
                                     [example_frame]))) \<noteq> None"
proof -
  let ?X = "process_frames example_externals example_processor 0 [example_frame]"
  have a: "\<not> isl ?X" by (simp add: example_run_defs)
  then have b: "?X = Inr (fst (projr ?X), snd (projr ?X))" by simp
  have c: "should_process_frame (mean_squared_difference example_externals)
     (skip_detector (snd (projr ?X))) (int (length [example_frame]))
     (Some (extract_roi (snd (projr ?X)) (swap_rb example_frame))) = Inr False"
    by (simp add: example_run_defs)
  from skip_branch_has_snapshot [OF b c] a c show ?thesis by blast
qed

section \<open>Properties of the compositor\<close>

lemma bidx_broadcast_left: "broadcast a b = Some c \<Longrightarrow> bidx a (bidx c i) = bidx a i"
  by (auto simp: broadcast_def bidx_def split: if_splits)

lemma bidx_broadcast_right: "broadcast a b = Some c \<Longrightarrow> bidx b (bidx c i) = bidx b i"
  by (auto simp: broadcast_def bidx_def split: if_splits)

lemma elementwise_at_broadcast:
  assumes "elementwise f a b = Inr c"
  shows "at_broadcast c i j = f (at_broadcast a i j) (at_broadcast b i j)"
proof -
  from assms obtain r k where rk: "broadcast (rows a) (rows b) = Some r"
    "broadcast (cols a) (cols b) = Some k"
    and c: "c = \<lparr>rows = r, cols = k, px = (\<lambda>i j. f (at_broadcast a i j) (at_broadcast b i j))\<rparr>"
    by (auto simp: elementwise_def split: option.splits)
  show ?thesis
    by (simp add: c at_broadcast_def bidx_broadcast_left [OF rk(1)] bidx_broadcast_left [OF rk(2)]
        bidx_broadcast_right [OF rk(1)] bidx_broadcast_right [OF rk(2)])
qed

lemma bidx_within: "lo \<le> i \<Longrightarrow> i < hi \<Longrightarrow> lo + bidx (hi - lo) (i - lo) = i"
  by (cases "hi - lo = 1") (simp_all add: bidx_def)

lemma at_broadcast_crop:
  assumes "in_slice a b i j"
  shows "at_broadcast (crop a b) (i - slice_top a b) (j - slice_left a b) = px a i j"
proof -
  obtain y_min y_max x_min x_max where b: "b = (y_min, y_max, x_min, x_max)" by (cases b)
  from assms show ?thesis
    by (simp add: b in_slice_def at_broadcast_def crop_def slice_top_def slice_left_def
        Let_def bidx_within)
qed

lemma assign_slice_result:
  assumes "assign_slice conv a b v = Inr r"
  shows "rows r = rows a \<and> cols r = cols a \<and>
         (\<forall>i j. px r i j = (if in_slice a b i j
                             then conv (at_broadcast v (i - slice_top a b) (j - slice_left a b))
                             else px a i j))"
proof -
  obtain y_min y_max x_min x_max where b: "b = (y_min, y_max, x_min, x_max)" by (cases b)
  from assms show ?thesis
    by (auto simp: b assign_slice_def in_slice_def slice_top_def slice_left_def Let_def
        split: if_splits)
qed

lemma colour_blend:
  "map_colour (of_float ext)
     (zip_colour (fadd ext) (map_colour (\<lambda>v. fmul ext m (to_float ext v)) p)
        (map_colour (\<lambda>v. fmul ext (fsub ext (fone ext) m) (to_float ext v)) r)) =
   blend_pixel ext m p r"
  by (cases p, cases r)
    (simp add: blend_pixel_def blend_channel_def map_colour_def zip_colour_def)

lemma composite_result:
  assumes "composite ext s frame (crop frame (roi_coords s)) processed = Inr result"
  shows "\<exists>regenerated. processed = Some regenerated \<and>
     rows result = rows frame \<and> cols result = cols frame \<and>
     (\<forall>i j. px result i j =
        (if in_slice frame (roi_coords s) i j
         then blend_pixel ext
                (at_broadcast (feather ext (roi_mask s))
                   (i - slice_top frame (roi_coords s)) (j - slice_left frame (roi_coords s)))
                (at_broadcast regenerated
                   (i - slice_top frame (roi_coords s)) (j - slice_left frame (roi_coords s)))
                (px frame i j)
         else px frame i j))"
proof -
  let ?M = "feather ext (roi_mask s)"
  let ?f1 = "\<lambda>m c. map_colour (\<lambda>v. fmul ext m (to_float ext v)) c"
  let ?f3 = "\<lambda>m c. map_colour (\<lambda>v. fmul ext (fsub ext (fone ext) m) (to_float ext v)) c"
  let ?roi = "crop frame (roi_coords s)"
  from assms obtain P t1 t3 V where
    P: "processed = Some P" and
    t1: "elementwise ?f1 ?M P = Inr t1" and
    t3: "elementwise ?f3 ?M ?roi = Inr t3" and
    V: "elementwise (zip_colour (fadd ext)) t1 t3 = Inr V" and
    r: "assign_slice (map_colour (of_float ext)) frame (roi_coords s) V = Inr result"
    by (auto simp: composite_def Let_def split: option.splits sum.splits)
  have v: "map_colour (of_float ext) (at_broadcast V i j) =
        blend_pixel ext (at_broadcast ?M i j) (at_broadcast P i j) (at_broadcast ?roi i j)" for i j
    by (simp only: elementwise_at_broadcast [OF V] elementwise_at_broadcast [OF t1]
        elementwise_at_broadcast [OF t3] colour_blend)
  from assign_slice_result [OF r] v at_broadcast_crop [of frame "roi_coords s"] P
  show ?thesis by auto
qed

lemma process_frame_composite:
  assumes "process_frame ext s f i = Inr (res, s')"
  shows "composite ext s' f (crop f (roi_coords s')) (prev_processed_roi s') = Inr res \<and>
         roi_coords s' = roi_coords s \<and> roi_mask s' = roi_mask s"
  using assms
  by (auto simp: process_frame_def extract_roi_def Let_def dest: regenerate_result
      split: sum.splits prod.splits if_splits)

lemma slice_index_nonneg: "0 \<le> k \<Longrightarrow> i < n \<Longrightarrow>
    (slice_index n k \<le> i \<longleftrightarrow> k \<le> int i) \<and> (i < slice_index n k \<longleftrightarrow> int i < k)"
  by (auto simp: slice_index_def)

lemma in_slice_rectangle:
  assumes "0 \<le> y_min" "0 \<le> y_max" "0 \<le> x_min" "0 \<le> x_max" "i < rows a" "j < cols a"
  shows "in_slice a (y_min, y_max, x_min, x_max) i j \<longleftrightarrow>
         y_min \<le> int i \<and> int i < y_max \<and> x_min \<le> int j \<and> int j < x_max"
  using assms by (simp add: in_slice_def slice_index_nonneg)

text \<open>
  Claim C9. When \<open>process_frame\<close> returns a frame, it has the shape of the input frame and
  equals it at every position that the slice \<^verbatim>\<open>[y_min:y_max, x_min:x_max]\<close> of \<open>roi_coords\<close>
  does not select. At a selected position the pixel is, per channel,
  feather * regenerated + (1 - feather) * raw in float32, converted back to a channel
  value (\<open>blend_pixel\<close>): feather is the blurred mask and regenerated the snapshot
  \<open>prev_processed_roi\<close>, both read at the position relative to the slice's corner, and raw
  is the input pixel. For bounds that are not negative the selected positions are those
  of the rectangle \<open>y_min \<le> i < y_max\<close>, \<open>x_min \<le> j < x_max\<close>.
\<close>

theorem process_frame_changes_region_only:
  assumes "process_frame ext self frame_bgr frame_index = Inr (result, self')"
  shows "rows result = rows frame_bgr \<and> cols result = cols frame_bgr \<and>
     (\<forall>i j. \<not> in_slice frame_bgr (roi_coords self) i j \<longrightarrow> px result i j = px frame_bgr i j) \<and>
     (\<exists>regenerated. prev_processed_roi self' = Some regenerated \<and>
        (\<forall>i j. in_slice frame_bgr (roi_coords self) i j \<longrightarrow>
           px result i j =
             blend_pixel ext
               (at_broadcast (feather ext (roi_mask self))
                  (i - slice_top frame_bgr (roi_coords self))
                  (j - slice_left frame_bgr (roi_coords self)))
               (at_broadcast regenerated
                  (i - slice_top frame_bgr (roi_coords self))
                  (j - slice_left frame_bgr (roi_coords self)))
               (px frame_bgr i j))) \<and>
     (\<forall>y_min y_max x_min x_max i j.
        roi_coords self = (y_min, y_max, x_min, x_max) \<longrightarrow>
        0 \<le> y_min \<longrightarrow> 0 \<le> y_max \<longrightarrow> 0 \<le> x_min \<longrightarrow> 0 \<le> x_max \<longrightarrow>
        i < rows frame_bgr \<longrightarrow> j < cols frame_bgr \<longrightarrow>
        (in_slice frame_bgr (roi_coords self) i j \<longleftrightarrow>
           y_min \<le> int i \<and> int i < y_max \<and> x_min \<le> int j \<and> int j < x_max))"
proof -
  from process_frame_composite [OF assms]
  have c: "composite ext self' frame_bgr (crop frame_bgr (roi_coords self'))
             (prev_processed_roi self') = Inr result"
    and k: "roi_coords self' = roi_coords self" "roi_mask self' = roi_mask self" by blast+
  from composite_result [OF c] obtain regenerated where
    r: "prev_processed_roi self' = Some regenerated"
       "rows result = rows frame_bgr" "cols result = cols frame_bgr"
       "\<And>i j. px result i j =
        (if in_slice frame_bgr (roi_coords self) i j
         then blend_pixel ext
                (at_broadcast (feather ext (roi_mask self))
                   (i - slice_top frame_bgr (roi_coords self))
                   (j - slice_left frame_bgr (roi_coords self)))
                (at_broadcast regenerated
                   (i - slice_top frame_bgr (roi_coords self))
                   (j - slice_left frame_bgr (roi_coords self)))
                (px frame_bgr i j)
         else px frame_bgr i j)"
    unfolding k by blast
  have outside: "\<forall>i j. \<not> in_slice frame_bgr (roi_coords self) i j \<longrightarrow>
      px result i j = px frame_bgr i j"
    by (simp add: r(4))
  have inside: "\<exists>regenerated. prev_processed_roi self' = Some regenerated \<and>
        (\<forall>i j. in_slice frame_bgr (roi_coords self) i j \<longrightarrow>
           px result i j =
             blend_pixel ext
               (at_broadcast (feather ext (roi_mask self))
                  (i - slice_top frame_bgr (roi_coords self))
                  (j - slice_left frame_bgr (roi_coords self)))
               (at_broadcast regenerated
                  (i - slice_top frame_bgr (roi_coords self))
                  (j - slice_left frame_bgr (roi_coords self)))
               (px frame_bgr i j))"
    using r(1) by (simp add: r(4))
  have rect: "\<forall>y_min y_max x_min x_max i j.
        roi_coords self = (y_min, y_max, x_min, x_max) \<longrightarrow>
        0 \<le> y_min \<longrightarrow> 0 \<le> y_max \<longrightarrow> 0 \<le> x_min \<longrightarrow> 0 \<le> x_max \<longrightarrow>
        i < rows frame_bgr \<longrightarrow> j < cols frame_bgr \<longrightarrow>
        (in_slice frame_bgr (roi_coords self) i j \<longleftrightarrow>
           y_min \<le> int i \<and> int i < y_max \<and> x_min \<le> int j \<and> int j < x_max)"
    by (simp add: in_slice_rectangle)
  from r(2,3) outside inside rect show ?thesis by blast
qed

theorem process_frame_changes_region_only_witness:
  "\<not> isl (process_frame example_externals example_processor (swap_rb example_frame) 0) \<and>
   \<not> in_slice (swap_rb example_frame) (roi_coords example_processor) 1 1 \<and>
   px (fst (projr (process_frame example_externals example_processor (swap_rb example_frame) 0)))
      1 1 = px (swap_rb example_frame) 1 1 \<and>
   in_slice (swap_rb example_frame) (roi_coords example_processor) 0 0 \<and>
   px (swap_rb example_frame) 0 0 = (30, 20, 10) \<and>
   px (fst (projr (process_frame example_externals example_processor (swap_rb example_frame) 0)))
      0 0 = (10, 20, 30)"
proof -
  let ?X = "process_frame example_externals example_processor (swap_rb example_frame) 0"
  have a: "\<not> isl ?X" by (simp add: example_run_defs)
  then have b: "?X = Inr (fst (projr ?X), snd (projr ?X))" by simp
  have out: "\<not> in_slice (swap_rb example_frame) (roi_coords example_processor) 1 1"
    by (simp add: in_slice_def example_run_defs)
  have ins: "in_slice (swap_rb example_frame) (roi_coords example_processor) 0 0"
    by (simp add: in_slice_def example_run_defs)
  from process_frame_changes_region_only [OF b] out
  have "px (fst (projr ?X)) 1 1 = px (swap_rb example_frame) 1 1" by blast
  moreover have "px (swap_rb example_frame) 0 0 = (30, 20, 10)"
    by (simp add: example_run_defs)
  moreover have "px (fst (projr ?X)) 0 0 = (10, 20, 30)"
    by (simp add: example_run_defs map_colour_def zip_colour_def)
  ultimately show ?thesis using a out ins by blast
qed

section \<open>Properties of the voting mask\<close>

lemma fold_max_mono:
  fixes f g :: "'z \<Rightarrow> 'v::linorder"
  assumes "\<And>z. z \<in> set zs \<Longrightarrow> f z \<le> g z" and "a \<le> b"
  shows "fold max (map f zs) a \<le> fold max (map g zs) b"
  using assms
proof (induction zs arbitrary: a b)
  case Nil
  then show ?case by simp
next
  case (Cons z zs)
  have "max (f z) a \<le> max (g z) b"
    by (rule max.mono) (use Cons.prems in auto)
  with Cons show ?case by simp
qed

lemma fold_max_const:
  fixes f :: "'z \<Rightarrow> 'v::linorder"
  assumes "\<And>z. z \<in> set zs \<Longrightarrow> f z = a"
  shows "fold max (map f zs) a = a"
  using assms by (induction zs) simp_all

lemma window_in_range: "i' \<in> set (window k n i) \<Longrightarrow> i' < n"
  by (auto simp: window_def)

lemma dilate_mono:
  assumes "rows a = rows b" "cols a = cols b"
    and "\<And>i j. px a i j \<le> px b i j"
  shows "px (dilate k a) i j \<le> px (dilate k b) i j"
proof -
  let ?P = "List.product (window k (rows b) i) (window k (cols b) j)"
  have "fold max (map (\<lambda>(i', j'). px a i' j') ?P) 0 \<le> fold max (map (\<lambda>(i', j'). px b i' j') ?P) 0"
    by (rule fold_max_mono) (use assms(3) in auto)
  then show ?thesis by (simp add: dilate_def assms(1,2))
qed

lemma dilate_shape: "rows (dilate k a) = rows a" "cols (dilate k a) = cols a"
  by (simp_all add: dilate_def)

lemma dilate_zero:
  assumes "\<And>i j. i < rows a \<Longrightarrow> j < cols a \<Longrightarrow> px a i j = 0"
  shows "px (dilate k a) i j = 0"
proof -
  let ?P = "List.product (window k (rows a) i) (window k (cols a) j)"
  have "fold max (map (\<lambda>(i', j'). px a i' j') ?P) 0 = 0"
    by (rule fold_max_const) (use assms in \<open>auto dest: window_in_range\<close>)
  then show ?thesis by (simp add: dilate_def)
qed

lemma u8_le_255: "(x :: u8) \<le> 255"
proof -
  have "(255 :: u8) = - 1" by simp
  then show ?thesis by (simp only: word_n1_ge)
qed

lemma keep_voted_mono: "t1 \<le> t2 \<Longrightarrow> px (keep_voted t2 v) i j \<le> px (keep_voted t1 v) i j"
  by (simp add: keep_voted_def map_img_def)

lemma keep_voted_shape: "rows (keep_voted t v) = rows v" "cols (keep_voted t v) = cols v"
  by (simp_all add: keep_voted_def map_img_def)

lemma dilate_twice_mono:
  assumes "dilate_twice k a = Inr a'" "rows a = rows b" "cols a = cols b"
    and le: "\<And>i j. px a i j \<le> px b i j"
  shows "\<exists>b'. dilate_twice k b = Inr b' \<and> rows b' = rows a' \<and> cols b' = cols a' \<and>
              (\<forall>i j. px a' i j \<le> px b' i j)"
proof -
  let ?k = "if k = 0 then 3 else nat k"
  from assms(1) have k: "\<not> k < 0" and a': "a' = dilate ?k (dilate ?k a)"
    by (auto simp: dilate_twice_def Let_def split: if_splits)
  have 1: "px (dilate ?k a) i j \<le> px (dilate ?k b) i j" for i j
    by (rule dilate_mono [OF assms(2,3) le])
  have "px (dilate ?k (dilate ?k a)) i j \<le> px (dilate ?k (dilate ?k b)) i j" for i j
    by (rule dilate_mono [OF _ _ 1]) (simp_all add: dilate_shape assms(2,3))
  moreover have "dilate_twice k b = Inr (dilate ?k (dilate ?k b))"
    using k by (simp add: dilate_twice_def Let_def)
  ultimately show ?thesis using assms(2,3) by (simp add: a' dilate_shape)
qed

lemma with_roi_min_frame_count:
  "with_roi sel (self\<lparr>min_frame_count := t\<rparr>) = (with_roi sel self)\<lparr>min_frame_count := t\<rparr>"
  by (simp add: with_roi_def split: option.splits)

lemma detect_watermark_ignores_count:
  "detect_watermark_in_frame ext (self\<lparr>min_frame_count := t\<rparr>) f = detect_watermark_in_frame ext self f"
  by (simp add: detect_watermark_in_frame_def)

lemma detect_all_ignores_count:
  "detect_all ext (self\<lparr>min_frame_count := t\<rparr>) fs = detect_all ext self fs"
  by (induction fs) (simp_all add: detect_watermark_ignores_count split: sum.splits)

lemma count_votes_ignores_count:
  "count_votes ext (self\<lparr>min_frame_count := t\<rparr>) f fs = count_votes ext self f fs"
  by (simp add: count_votes_def detect_watermark_ignores_count detect_all_ignores_count
      split: sum.splits)

text \<open>
  Claim C6. For the same sampled frames, region and kernel size, let \<open>generate_mask\<close>
  return a mask for \<open>min_frame_count = t2\<close>. For every \<open>t1 \<le> t2\<close> it returns a mask of the
  same shape for \<open>min_frame_count = t1\<close> too, and every element that is foreground (positive,
  or 255) in the first is foreground in the second, the two dilations included.
\<close>

theorem raising_threshold_never_grows_mask:
  assumes "t1 \<le> t2"
    and "generate_mask ext sel (self\<lparr>min_frame_count := t2\<rparr>) frame frames = Inr (m2, d2)"
  shows "\<exists>m1 d1. generate_mask ext sel (self\<lparr>min_frame_count := t1\<rparr>) frame frames = Inr (m1, d1) \<and>
           rows m1 = rows m2 \<and> cols m1 = cols m2 \<and>
           (\<forall>i j. (0 < px m2 i j \<longrightarrow> 0 < px m1 i j) \<and> (px m2 i j = 255 \<longrightarrow> px m1 i j = 255))"
proof -
  let ?d = "with_roi sel self"
  from assms(2) obtain votes where
    v: "count_votes ext ?d frame frames = Inr votes" and
    m2: "dilate_twice (dilation_kernel_size ?d) (keep_voted t2 votes) = Inr m2"
    by (auto simp: generate_mask_def with_roi_min_frame_count count_votes_ignores_count Let_def
        split: sum.splits)
  from dilate_twice_mono [OF m2, of "keep_voted t1 votes"] keep_voted_mono [OF assms(1)]
  obtain m1 where m1: "dilate_twice (dilation_kernel_size ?d) (keep_voted t1 votes) = Inr m1"
    "rows m1 = rows m2" "cols m1 = cols m2" "\<And>i j. px m2 i j \<le> px m1 i j"
    by (auto simp: keep_voted_shape)
  have "generate_mask ext sel (self\<lparr>min_frame_count := t1\<rparr>) frame frames =
          Inr (m1, ?d\<lparr>min_frame_count := t1\<rparr>)"
    using v m1(1)
    by (simp add: generate_mask_def with_roi_min_frame_count count_votes_ignores_count Let_def)
  moreover have "(0 < px m2 i j \<longrightarrow> 0 < px m1 i j) \<and> (px m2 i j = 255 \<longrightarrow> px m1 i j = 255)" for i j
  proof -
    have "px m2 i j \<le> px m1 i j" by (rule m1(4))
    moreover have "px m1 i j \<le> 255" by (rule u8_le_255)
    ultimately show ?thesis by auto
  qed
  ultimately show ?thesis using m1(2,3) by blast
qed

lemma with_roi_fields:
  "roi (with_roi sel self) \<noteq> None" "min_frame_count (with_roi sel self) = min_frame_count self"
  "dilation_kernel_size (with_roi sel self) = dilation_kernel_size self"
  by (cases "roi self"; cases sel; simp add: with_roi_def)+

lemma crop_shape:
  "rows f = rows g \<Longrightarrow> cols f = cols g \<Longrightarrow>
     rows (crop f b) = rows (crop g b) \<and> cols (crop f b) = cols (crop g b)"
  by (cases b) (simp add: crop_def Let_def)

lemma detect_watermark_returns:
  assumes "roi self = Some r" and "\<not> empty_img (crop f (roi_box r))"
  shows "\<exists>m. detect_watermark_in_frame ext self f = Inr m \<and> rows m = rows f \<and> cols m = cols f"
proof -
  obtain y0 y1 x0 x1 where b: "roi_box r = (y0, y1, x0, x1)" by (cases "roi_box r")
  from assms show ?thesis
    by (simp add: detect_watermark_in_frame_def assign_slice_def b crop_def zeros_def Let_def)
qed

lemma detect_all_returns:
  assumes "roi self = Some r" and "\<forall>f \<in> set fs. \<not> empty_img (crop f (roi_box r))"
  shows "\<exists>ms. detect_all ext self fs = Inr ms \<and> length ms = length fs \<and>
           (\<forall>n<length fs. rows (ms ! n) = rows (fs ! n) \<and> cols (ms ! n) = cols (fs ! n))"
  using assms(2)
proof (induction fs)
  case Nil
  then show ?case by simp
next
  case (Cons f fs)
  from Cons.prems have ne: "\<not> empty_img (crop f (roi_box r))" by simp
  from detect_watermark_returns [OF assms(1) ne, of ext] obtain m where
    m: "detect_watermark_in_frame ext self f = Inr m" "rows m = rows f" "cols m = cols f" by blast
  from Cons obtain ms where ms: "detect_all ext self fs = Inr ms" "length ms = length fs"
    "\<forall>n<length fs. rows (ms ! n) = rows (fs ! n) \<and> cols (ms ! n) = cols (fs ! n)" by auto
  have "\<forall>n<length (f # fs). rows ((m # ms) ! n) = rows ((f # fs) ! n) \<and>
          cols ((m # ms) ! n) = cols ((f # fs) ! n)"
    using m(2,3) ms(3) by (auto simp: nth_Cons split: nat.splits)
  with m(1) ms(1,2) show ?case by simp
qed

lemma add_votes_returns:
  assumes "\<forall>m \<in> set ms. rows m = rows acc \<and> cols m = cols acc"
  shows "\<exists>v. add_votes acc ms = Inr v \<and> rows v = rows acc \<and> cols v = cols acc"
  using assms
proof (induction ms arbitrary: acc)
  case Nil
  then show ?case by simp
next
  case (Cons m ms)
  let ?a = "\<lparr>rows = rows acc, cols = cols acc,
             px = (\<lambda>i j. at_broadcast acc i j + at_broadcast (vote m) i j)\<rparr>"
  have e: "elementwise (+) acc (vote m) = Inr ?a"
    using Cons.prems by (simp add: elementwise_def broadcast_def vote_def map_img_def)
  have "\<forall>m \<in> set ms. rows m = rows ?a \<and> cols m = cols ?a" using Cons.prems by simp
  from Cons.IH [OF this] e show ?case by simp
qed

lemma count_votes_returns:
  assumes "roi self = Some r" and "\<not> empty_img (crop frame (roi_box r))"
    and "\<forall>f \<in> set frames. rows f = rows frame \<and> cols f = cols frame"
  shows "\<exists>votes. count_votes ext self frame frames = Inr votes \<and>
           rows votes = rows frame \<and> cols votes = cols frame"
proof -
  from detect_watermark_returns [OF assms(1,2), of ext] obtain m where
    m: "detect_watermark_in_frame ext self frame = Inr m" "rows m = rows frame" "cols m = cols frame"
    by blast
  have "\<forall>f \<in> set frames. \<not> empty_img (crop f (roi_box r))"
  proof
    fix f assume "f \<in> set frames"
    with assms(3) have "rows f = rows frame" "cols f = cols frame" by simp_all
    from crop_shape [OF this, of "roi_box r"] assms(2)
    show "\<not> empty_img (crop f (roi_box r))" by (simp add: empty_img_def)
  qed
  from detect_all_returns [OF assms(1) this, of ext] obtain ms where
    ms: "detect_all ext self frames = Inr ms" "length ms = length frames"
    "\<forall>n<length frames. rows (ms ! n) = rows (frames ! n) \<and> cols (ms ! n) = cols (frames ! n)"
    by blast
  have "\<forall>x \<in> set ms. rows x = rows (vote m) \<and> cols x = cols (vote m)"
  proof
    fix x assume "x \<in> set ms"
    then obtain n where n: "n < length ms" "x = ms ! n" by (auto simp: in_set_conv_nth)
    with ms(2,3) assms(3) m(2,3) show "rows x = rows (vote m) \<and> cols x = cols (vote m)"
      by (simp add: vote_def map_img_def)
  qed
  from add_votes_returns [OF this] m ms(1) show ?thesis
    by (auto simp: count_votes_def vote_def map_img_def)
qed

lemma empty_region_raises:
  assumes "roi self = Some r" and "empty_img (crop f (roi_box r))"
  shows "detect_watermark_in_frame ext self f = Inl Cv2Error"
  using assms by (simp add: detect_watermark_in_frame_def Let_def)

lemma no_foreground_raises:
  assumes "\<forall>i j. px m i j = 0"
  shows "get_roi_coordinates m margin = Inl (ValueError ''No watermark region found in mask'')"
proof -
  from assms have "\<forall>i<rows m. \<forall>j<cols m. px m i j = 0" by simp
  then have "foreground_indices m = []" by (rule foreground_indices_empty)
  then show ?thesis by (simp add: get_roi_coordinates_def)
qed

text \<open>
  Claim C3 as amended. Let there be at least one sampled frame, all sampled frames of one
  shape, a selected region that is not empty in the frame, and a kernel size that is not
  negative. Then \<open>generate_mask\<close> does not fail: the votes are counted and a mask of the
  frame's shape is returned. When no element's vote count reaches \<open>min_frame_count\<close>, all
  elements of that mask are 0, and it is \<open>get_roi_coordinates\<close>, given that mask, that
  raises the ValueError "No watermark region found in mask".
\<close>

theorem no_votes_gives_empty_mask:
  assumes "roi (with_roi selected self) = Some r"
    and "\<not> empty_img (crop frame (roi_box r))"
    and "\<forall>f \<in> set frames. rows f = rows frame \<and> cols f = cols frame"
    and "0 \<le> dilation_kernel_size self"
  shows "\<exists>votes m.
           count_votes ext (with_roi selected self) frame frames = Inr votes \<and>
           rows votes = rows frame \<and> cols votes = cols frame \<and>
           generate_mask ext selected self frame frames = Inr (m, with_roi selected self) \<and>
           rows m = rows frame \<and> cols m = cols frame \<and>
           ((\<forall>i<rows frame. \<forall>j<cols frame. uint (px votes i j) < min_frame_count self) \<longrightarrow>
              (\<forall>i j. px m i j = 0) \<and>
              get_roi_coordinates m margin =
                Inl (ValueError ''No watermark region found in mask''))"
proof -
  let ?d = "with_roi selected self"
  from count_votes_returns [OF assms(1,2,3), of ext] obtain votes where
    v: "count_votes ext ?d frame frames = Inr votes" "rows votes = rows frame"
       "cols votes = cols frame" by blast
  let ?f = "keep_voted (min_frame_count self) votes"
  let ?k = "if dilation_kernel_size self = 0 then 3 else nat (dilation_kernel_size self)"
  let ?m = "dilate ?k (dilate ?k ?f)"
  have g: "generate_mask ext selected self frame frames = Inr (?m, ?d)"
    using v(1) assms(4) by (simp add: generate_mask_def with_roi_fields dilate_twice_def Let_def)
  have s: "rows ?m = rows frame" "cols ?m = cols frame"
    by (simp_all add: dilate_shape keep_voted_shape v(2,3))
  have e: "(\<forall>i j. px ?m i j = 0) \<and>
           get_roi_coordinates ?m margin = Inl (ValueError ''No watermark region found in mask'')"
    if n: "\<forall>i<rows frame. \<forall>j<cols frame. uint (px votes i j) < min_frame_count self"
  proof -
    have z: "px ?f i j = 0" if "i < rows ?f" "j < cols ?f" for i j
      using that n v(2,3) by (auto simp: keep_voted_def map_img_def not_le)
    have z1: "px (dilate ?k ?f) i j = 0" for i j by (rule dilate_zero) (rule z)
    have "px ?m i j = 0" for i j by (rule dilate_zero) (rule z1)
    then have z2: "\<forall>i j. px ?m i j = 0" by blast
    from z2 no_foreground_raises [OF z2] show ?thesis by blast
  qed
  from v g s e show ?thesis by blast
qed

text \<open>
  Claim C3 says that \<open>generate_mask\<close> fails when no element reaches the vote count. On two
  sampled frames where the top-left element gets 2 votes and the others none, with
  \<open>min_frame_count = 7\<close>, it returns a mask.
\<close>

theorem no_votes_raises_counterexample:
  "\<not> isl (generate_mask example_externals (0, 0, 2, 2) example_detector example_frame
            [example_frame]) \<and>
   px (projr (count_votes example_externals example_detector example_frame [example_frame])) 0 0 = 2 \<and>
   min_frame_count example_detector = 7"
  by code_simp

theorem no_votes_gives_empty_mask_witness:
  "roi (with_roi (0, 0, 2, 2) example_detector) = Some (0, 0, 2, 2) \<and>
   \<not> empty_img (crop example_frame (roi_box (0, 0, 2, 2))) \<and>
   (0::int) \<le> dilation_kernel_size example_detector \<and>
   \<not> isl (generate_mask example_externals (0, 0, 2, 2) example_detector example_frame
            [example_frame]) \<and>
   rows (fst (projr (generate_mask example_externals (0, 0, 2, 2) example_detector example_frame
                       [example_frame]))) = 2 \<and>
   px (fst (projr (generate_mask example_externals (0, 0, 2, 2) example_detector example_frame
                     [example_frame]))) 0 0 = 0 \<and>
   get_roi_coordinates
     (fst (projr (generate_mask example_externals (0, 0, 2, 2) example_detector example_frame
                    [example_frame]))) 50 =
     Inl (ValueError ''No watermark region found in mask'')"
proof -
  let ?D = "with_roi (0, 0, 2, 2) example_detector"
  let ?V = "count_votes example_externals ?D example_frame [example_frame]"
  let ?G = "generate_mask example_externals (0, 0, 2, 2) example_detector example_frame
              [example_frame]"
  have a: "roi ?D = Some (0, 0, 2, 2)" by code_simp
  have b: "\<not> empty_img (crop example_frame (roi_box (0, 0, 2, 2)))" by code_simp
  have c: "\<forall>f \<in> set [example_frame]. rows f = rows example_frame \<and> cols f = cols example_frame"
    by simp
  have d: "0 \<le> dilation_kernel_size example_detector" by code_simp
  have "\<forall>i \<in> set [0..<rows example_frame]. \<forall>j \<in> set [0..<cols example_frame].
          uint (px (projr ?V) i j) < min_frame_count example_detector"
    by code_simp
  then have n: "\<forall>i<rows example_frame. \<forall>j<cols example_frame.
          uint (px (projr ?V) i j) < min_frame_count example_detector"
    by simp
  from no_votes_gives_empty_mask [OF a b c d, of example_externals 50] obtain votes m where
    r: "?V = Inr votes" "?G = Inr (m, ?D)" "rows m = rows example_frame"
       "(\<forall>i<rows example_frame. \<forall>j<cols example_frame.
            uint (px votes i j) < min_frame_count example_detector) \<longrightarrow>
        (\<forall>i j. px m i j = 0) \<and>
        get_roi_coordinates m 50 = Inl (ValueError ''No watermark region found in mask'')"
    by blast
  from r(1) have "projr ?V = votes" by simp
  with n r(4) have z: "\<forall>i j. px m i j = 0"
    "get_roi_coordinates m 50 = Inl (ValueError ''No watermark region found in mask'')"
    by blast+
  have "rows example_frame = 2" by code_simp
  with r(2,3) z have "\<not> isl ?G" "rows (fst (projr ?G)) = 2" "px (fst (projr ?G)) 0 0 = 0"
    "get_roi_coordinates (fst (projr ?G)) 50 =
       Inl (ValueError ''No watermark region found in mask'')"
    by simp_all
  with a b d show ?thesis by blast
qed

theorem raising_threshold_never_grows_mask_witness:
  "(1::int) \<le> 2 \<and>
   \<not> isl (generate_mask example_externals (0, 0, 2, 2) (example_detector\<lparr>min_frame_count := 2\<rparr>)
            example_frame [example_frame]) \<and>
   0 < px (fst (projr (generate_mask example_externals (0, 0, 2, 2)
                         (example_detector\<lparr>min_frame_count := 2\<rparr>) example_frame [example_frame])))
          0 0 \<and>
   0 < px (fst (projr (generate_mask example_externals (0, 0, 2, 2)
                         (example_detector\<lparr>min_frame_count := 1\<rparr>) example_frame [example_frame])))
          0 0"
proof -
  let ?G2 = "generate_mask example_externals (0, 0, 2, 2) (example_detector\<lparr>min_frame_count := 2\<rparr>)
               example_frame [example_frame]"
  let ?G1 = "generate_mask example_externals (0, 0, 2, 2) (example_detector\<lparr>min_frame_count := 1\<rparr>)
               example_frame [example_frame]"
  have h: "(1::int) \<le> 2" by simp
  have a: "\<not> isl ?G2" by code_simp
  then have b: "?G2 = Inr (fst (projr ?G2), snd (projr ?G2))" by simp
  have c: "0 < px (fst (projr ?G2)) 0 0" by code_simp
  from raising_threshold_never_grows_mask [OF h b] c obtain m1 d1 where
    "?G1 = Inr (m1, d1)" "0 < px m1 0 0" by blast
  then have "0 < px (fst (projr ?G1)) 0 0" by simp
  with h a c show ?thesis by blast
qed

end
